theory Spec2Isabelle
  imports Main "HOL-Library.Word" "HOL-Library.Signed_Division" "HOL-Library.AList"
begin

section \<open>Priority queue (pkg/commonutil/pq.go)\<close>

text \<open>
  An \<open>Item\<close> is the struct of pq.go: \<open>Priority\<close> is an int64, read with \<open>sint\<close>;
  \<open>Index\<close> is a Go int. The queue is the slice \<open>[]*Item\<close>. The queue never holds one
  pointer twice, so the items are modelled as values. Indices are Go ints (\<open>int\<close> here,
  a slice being far shorter than \<open>2 ^ 62\<close> items, so that no index overflows); a slice is
  read at \<open>nat i\<close>, and every read the heap functions make is in range.
\<close>

record Item =
  Value :: string
  Priority :: "64 word"
  Index :: int

type_synonym PriorityQueue = "Item list"

definition Len :: "PriorityQueue \<Rightarrow> int" where
  "Len pq = int (length pq)"

definition prio :: "PriorityQueue \<Rightarrow> int \<Rightarrow> int" where
  "prio pq i = sint (Priority (pq ! nat i))"

definition Less :: "PriorityQueue \<Rightarrow> int \<Rightarrow> int \<Rightarrow> bool" where
  "Less pq i j = (prio pq i > prio pq j)"

definition Swap :: "PriorityQueue \<Rightarrow> int \<Rightarrow> int \<Rightarrow> PriorityQueue" where
  "Swap pq i j =
     (if Len pq \<le> 1 then pq
      else (let a = pq ! nat i; b = pq ! nat j
            in pq[nat i := b\<lparr>Index := i\<rparr>, nat j := a\<lparr>Index := j\<rparr>]))"

definition Push :: "PriorityQueue \<Rightarrow> Item \<Rightarrow> PriorityQueue" where
  "Push pq x = (let n = Len pq in pq @ [x\<lparr>Index := n\<rparr>])"

text \<open>\<open>Pop\<close> returns \<open>None\<close> for Go's nil.\<close>

definition Pop :: "PriorityQueue \<Rightarrow> Item option \<times> PriorityQueue" where
  "Pop pq =
     (let n = Len pq
      in if n = 0 then (None, pq)
         else (Some ((pq ! nat (n - 1))\<lparr>Index := - 1\<rparr>), take (nat (n - 1)) pq))"

section \<open>container/heap of the Go library, over the queue's methods\<close>

text \<open>
  \<open>up\<close> and \<open>down\<close> are the loops of container/heap. Go's \<open>/\<close> truncates, which is
  \<open>sdiv\<close>. \<open>down\<close> returns the array only: \<open>heap.Pop\<close> ignores its boolean.
\<close>

function up :: "PriorityQueue \<Rightarrow> int \<Rightarrow> PriorityQueue" where
  "up pq j =
     (let i = (j - 1) sdiv 2
      in if i = j \<or> \<not> Less pq j i then pq
         else up (Swap pq i j) i)"
  by pat_completeness auto
termination
proof (relation "measure (\<lambda>(pq, j). nat \<bar>j\<bar>)")
  show "wf (measure (\<lambda>(pq, j). nat \<bar>j\<bar>))" by simp
next
  fix pq :: PriorityQueue and j i :: int
  assume i: "i = (j - 1) sdiv 2" and c: "\<not> (i = j \<or> \<not> Less pq j i)"
  have "\<bar>i\<bar> < \<bar>j\<bar>"
  proof (cases "1 \<le> j")
    case True
    then have "i = (j - 1) div 2" using i by (simp add: signed_divide_int_def sgn_if)
    with True show ?thesis by linarith
  next
    case False
    then have "i = - ((1 - j) div 2)" using i by (simp add: signed_divide_int_def sgn_if)
    with False c show ?thesis by linarith
  qed
  then show "((Swap pq i j, i), (pq, j)) \<in> measure (\<lambda>(pq, j). nat \<bar>j\<bar>)" by simp
qed

function down :: "PriorityQueue \<Rightarrow> int \<Rightarrow> int \<Rightarrow> PriorityQueue" where
  "down pq i n =
     (let j1 = 2 * i + 1
      in if j1 \<ge> n \<or> j1 < 0 then pq
         else (let j2 = j1 + 1;
                   j = (if j2 < n \<and> Less pq j2 j1 then j2 else j1)
               in if \<not> Less pq j i then pq
                  else down (Swap pq i j) j n))"
  by pat_completeness auto
termination
  by (relation "measure (\<lambda>(pq, i, n). nat (n - i))") (auto split: if_splits)

declare up.simps [simp del]
declare down.simps [simp del]

definition heap_Push :: "PriorityQueue \<Rightarrow> Item \<Rightarrow> PriorityQueue" where
  "heap_Push pq x = (let pq1 = Push pq x in up pq1 (Len pq1 - 1))"

definition heap_Pop :: "PriorityQueue \<Rightarrow> Item option \<times> PriorityQueue" where
  "heap_Pop pq =
     (let n = Len pq - 1;
          pq1 = Swap pq 0 n;
          pq2 = down pq1 0 n
      in Pop pq2)"


section \<open>Errors and outcomes\<close>

text \<open>
  A Go \<open>error\<close> value: the sentinels the code compares against, and \<open>Err\<close> for
  \<open>errors.New\<close> and \<open>errors.Errorf\<close> (the message without its formatted arguments).
  \<open>errors.Wrap err ""\<close> keeps the error. \<open>None\<close> of \<open>error option\<close> is Go's nil.
\<close>

datatype error = ErrNotExist | ErrExist | ErrEtcdValueNotMatch | Err string

text \<open>
  How a call ends: it returns, it panics (deferred calls run), it blocks on a channel
  send and does not return, or the runtime stops the process with a fatal error.
\<close>

datatype outcome = Returned | Panicked string | Blocked | Fatal string

section \<open>Event queue of the coordinator (server/smserver/eq.go)\<close>

type_synonym eventType = int

definition tShardChanged :: eventType where "tShardChanged = 1"
definition tShardLoadChanged :: eventType where "tShardLoadChanged = 2"
definition tContainerChanged :: eventType where "tContainerChanged = 3"
definition tContainerLoadChanged :: eventType where "tContainerLoadChanged = 4"
definition tContainerInit :: eventType where "tContainerInit = 5"

definition defaultEventChanLength :: nat where "defaultEventChanLength = 32"

record mvEvent =
  Service :: string
  Type :: eventType
  EnqueueTime :: "64 word"
  ev_Value :: string

datatype mu_op = Lock | Unlock

text \<open>
  A \<open>sync.Mutex\<close>: whether it is held, and every Lock and Unlock made on it, in order.
  Unlocking a mutex that is not held is a fatal error of the Go runtime: \<open>Mutex_Unlock\<close>
  returns \<open>False\<close> first then.
\<close>

record Mutex =
  held :: bool
  ops :: "mu_op list"

definition Mutex_Lock :: "Mutex \<Rightarrow> Mutex" where
  "Mutex_Lock m = m\<lparr>held := True, ops := ops m @ [Lock]\<rparr>"

definition Mutex_Unlock :: "Mutex \<Rightarrow> bool \<times> Mutex" where
  "Mutex_Unlock m = (held m, m\<lparr>held := False, ops := ops m @ [Unlock]\<rparr>)"

definition unlocks :: "Mutex \<Rightarrow> nat" where
  "unlocks m = length (filter (\<lambda>x. x = Unlock) (ops m))"

text \<open>
  The queue's state. A channel is its buffer; \<open>evLoops\<close> lists the services a worker
  was started for. \<open>parent_service\<close> is \<open>eq.parent.service\<close>.
\<close>

record eventQueue =
  parent_service :: string
  pq :: PriorityQueue
  mu :: Mutex
  serviceEvChan :: "string \<rightharpoonup> mvEvent list"
  serviceBlk :: "string set"
  evLoops :: "string list"

definition eq_Unlock :: "outcome \<times> eventQueue \<Rightarrow> outcome \<times> eventQueue" where
  "eq_Unlock r =
     (let eq = snd r; m = Mutex_Unlock (mu eq)
      in if fst m then (fst r, eq\<lparr>mu := snd m\<rparr>)
         else (Fatal ''sync: unlock of unlocked mutex'', eq\<lparr>mu := snd m\<rparr>))"

text \<open>A deferred Unlock runs when the function returns or panics.\<close>

definition defer_Unlock :: "outcome \<times> eventQueue \<Rightarrow> outcome \<times> eventQueue" where
  "defer_Unlock r =
     (case fst r of
        Returned \<Rightarrow> eq_Unlock r
      | Panicked m \<Rightarrow> eq_Unlock r
      | Blocked \<Rightarrow> r
      | Fatal m \<Rightarrow> r)"

definition chan_of :: "eventQueue \<Rightarrow> string \<Rightarrow> mvEvent list" where
  "chan_of eq s = (case serviceEvChan eq s of None \<Rightarrow> [] | Some b \<Rightarrow> b)"

text \<open>\<open>ch <- &ev\<close>: the send blocks while the buffer is full.\<close>

definition chan_send :: "eventQueue \<Rightarrow> mvEvent \<Rightarrow> outcome \<times> eventQueue" where
  "chan_send eq ev =
     (let buf = chan_of eq (Service ev)
      in if length buf < defaultEventChanLength
         then (Returned, eq\<lparr>serviceEvChan := (serviceEvChan eq)(Service ev \<mapsto> buf @ [ev])\<rparr>)
         else (Blocked, eq))"

text \<open>
  The body of \<open>push\<close> between Lock and the deferred Unlock. \<open>unmarshal\<close> is
  \<open>json.Unmarshal\<close> into an mvEvent (\<open>None\<close> when it fails) and \<open>now\<close> is
  \<open>time.Now().Unix()\<close>.
\<close>

definition push_body ::
  "(string \<Rightarrow> mvEvent option) \<Rightarrow> 64 word \<Rightarrow> eventQueue \<Rightarrow> Item \<Rightarrow> bool \<Rightarrow> outcome \<times> eventQueue" where
  "push_body unmarshal now eq item checkDup =
     (case unmarshal (Value item) of
        None \<Rightarrow> (Returned, eq)
      | Some ev \<Rightarrow>
          if checkDup \<and> Service ev \<in> serviceBlk eq then (Returned, eq)
          else
            (let eq1 = (if checkDup then eq\<lparr>serviceBlk := insert (Service ev) (serviceBlk eq)\<rparr> else eq);
                 eq2 = (case serviceEvChan eq1 (Service ev) of
                          None \<Rightarrow> eq1\<lparr>serviceEvChan := (serviceEvChan eq1)(Service ev \<mapsto> []),
                                       evLoops := evLoops eq1 @ [Service ev]\<rparr>
                        | Some ch \<Rightarrow> eq1)
             in if Type ev = tShardChanged \<or> Type ev = tContainerChanged \<or> Type ev = tContainerInit
                then chan_send eq2 ev
                else if Type ev = tShardLoadChanged \<or> Type ev = tContainerLoadChanged
                then (if sint now \<ge> sint (Priority item) then chan_send eq2 ev
                      else (Returned, eq2\<lparr>pq := heap_Push (pq eq2) item\<rparr>))
                else (Panicked ''unknown ev type'', eq2)))"

text \<open>Lock waits while another goroutine holds the mutex: the call is blocked then.\<close>

definition push ::
  "(string \<Rightarrow> mvEvent option) \<Rightarrow> 64 word \<Rightarrow> eventQueue \<Rightarrow> Item \<Rightarrow> bool \<Rightarrow> outcome \<times> eventQueue" where
  "push unmarshal now eq item checkDup =
     (if held (mu eq) then (Blocked, eq)
      else defer_Unlock (push_body unmarshal now (eq\<lparr>mu := Mutex_Lock (mu eq)\<rparr>) item checkDup))"

text \<open>
  \<open>tryPopAndPush\<close>: the \<open>goto popASAP\<close> loop. The clock is read as one value \<open>now\<close> for
  the whole call. The loop ends: an item that is handed to \<open>push\<close> has a priority of
  at most \<open>now\<close> and is not put back on the heap.
\<close>

function tryPopAndPush ::
  "(string \<Rightarrow> mvEvent option) \<Rightarrow> 64 word \<Rightarrow> eventQueue \<Rightarrow> outcome \<times> eventQueue" where
  "tryPopAndPush unmarshal now eq =
     (case heap_Pop (pq eq) of
        (None, pq') \<Rightarrow> (Returned, eq\<lparr>pq := pq'\<rparr>)
      | (Some item, pq') \<Rightarrow>
          if sint now < sint (Priority item)
          then (Returned, eq\<lparr>pq := heap_Push pq' item\<rparr>)
          else (case push unmarshal now (eq\<lparr>pq := pq'\<rparr>) item False of
                  (Returned, eq') \<Rightarrow> tryPopAndPush unmarshal now eq'
                | (oc, eq') \<Rightarrow> (oc, eq')))"
  by pat_completeness auto
termination
proof (relation "measure (\<lambda>(unmarshal, now, eq). length (pq eq))")
  show "wf (measure (\<lambda>(unmarshal, now, eq). length (pq eq)))" by simp
next
  fix unmarshal :: "string \<Rightarrow> mvEvent option" and now :: "64 word"
    and eq eq' :: eventQueue and v :: "Item option" and pq' :: PriorityQueue
    and item :: Item and oc :: outcome
  assume x: "(v, pq') = heap_Pop (pq eq)" "v = Some item"
    and due: "\<not> sint now < sint (Priority item)"
    and r: "(oc, eq') = push unmarshal now (eq\<lparr>pq := pq'\<rparr>) item False" "oc = Returned"
  have len_Swap: "length (Swap q i j) = length q" for q i j
    by (simp add: Swap_def Let_def)
  have len_down: "length (down q i n) = length q" for q i n
  proof (induction q i n rule: down.induct)
    case (1 q i n)
    show ?case
      using "1.IH" by (subst down.simps) (simp add: Let_def len_Swap)
  qed
  have "pq' = snd (Pop (down (Swap (pq eq) 0 (Len (pq eq) - 1)) 0 (Len (pq eq) - 1)))"
    and "Some item = fst (Pop (down (Swap (pq eq) 0 (Len (pq eq) - 1)) 0 (Len (pq eq) - 1)))"
    using x by (simp_all add: heap_Pop_def Let_def) (metis snd_conv, metis fst_conv)
  then have shorter: "length pq' < length (pq eq)"
    by (cases "pq eq") (auto simp: Pop_def Let_def Len_def len_down len_Swap split: if_splits)
  have keep_send: "pq (snd (chan_send q e)) = pq q" for q e
    by (simp add: chan_send_def Let_def)
  have "pq (snd (push_body unmarshal now q item False)) = pq q" for q
    using due by (auto simp: push_body_def Let_def keep_send split: option.splits)
  moreover have "pq (snd (defer_Unlock t)) = pq (snd t)" for t
    by (auto simp: defer_Unlock_def eq_Unlock_def Let_def split: outcome.splits)
  ultimately have "pq (snd (push unmarshal now (eq\<lparr>pq := pq'\<rparr>) item False)) = pq'"
    by (simp add: push_def)
  then have "pq eq' = pq'" using r by (metis snd_conv)
  then show "((unmarshal, now, eq'), (unmarshal, now, eq)) \<in> measure (\<lambda>(unmarshal, now, eq). length (pq eq))"
    using shorter by simp
qed

declare tryPopAndPush.simps [simp del]


subsection \<open>The store client\<close>

text \<open>
  Modelled from the spec: the store client wrapper (package etcdutil) and the key paths
  (package apputil) are not among the sources. The store maps a key to a value and the
  lease it is attached to; a key that is absent reads as the empty string. A
  compare-and-swap writes the new value when the current one equals the expected one and
  fails with \<open>ErrEtcdValueNotMatch\<close> otherwise. Every request is listed in \<open>calls\<close>,
  and \<open>fault\<close> tells for the n-th request whether the store fails it.
\<close>

datatype etcd_call =
  CallCompareAndSwap string string string
| CallPut string string "64 word"

record EtcdWrapper =
  kv :: "string \<rightharpoonup> string \<times> 64 word"
  calls :: "etcd_call list"
  fault :: "nat \<Rightarrow> error option"

definition kv_value :: "EtcdWrapper \<Rightarrow> string \<Rightarrow> string" where
  "kv_value c key = (case kv c key of None \<Rightarrow> [] | Some (v, l) \<Rightarrow> v)"

definition CompareAndSwap ::
  "EtcdWrapper \<Rightarrow> string \<Rightarrow> string \<Rightarrow> string \<Rightarrow> 64 word \<Rightarrow> error option \<times> EtcdWrapper" where
  "CompareAndSwap c key old new lease =
     (let c1 = c\<lparr>calls := calls c @ [CallCompareAndSwap key old new]\<rparr>
      in case fault c (length (calls c)) of
           Some e \<Rightarrow> (Some e, c1)
         | None \<Rightarrow>
             if kv_value c key = old then (None, c1\<lparr>kv := (kv c)(key \<mapsto> (new, lease))\<rparr>)
             else (Some ErrEtcdValueNotMatch, c1))"

definition etcd_Put ::
  "EtcdWrapper \<Rightarrow> string \<Rightarrow> string \<Rightarrow> 64 word \<Rightarrow> error option \<times> EtcdWrapper" where
  "etcd_Put c key val lease =
     (let c1 = c\<lparr>calls := calls c @ [CallPut key val lease]\<rparr>
      in case fault c (length (calls c)) of
           Some e \<Rightarrow> (Some e, c1)
         | None \<Rightarrow> (None, c1\<lparr>kv := (kv c)(key \<mapsto> (val, lease))\<rparr>))"

definition EtcdPathAppShardTask :: "string \<Rightarrow> string" where
  "EtcdPathAppShardTask service = ''task/'' @ service"

definition LeaseSessionPath :: "string \<Rightarrow> string \<Rightarrow> string" where
  "LeaseSessionPath service container = ''lease/session/'' @ service @ ''/'' @ container"

definition clientv3_NoLease :: "64 word" where
  "clientv3_NoLease = 0"

subsection \<open>evLoop\<close>

text \<open>
  One turn of the loop of \<open>evLoop\<close>, for the event \<open>ev\<close> received from the channel:
  the compare-and-swap (its error is logged only), then the removal from
  \<open>serviceBlk\<close> under the mutex. \<open>evLoop\<close> runs the turns for the events received
  until the context is done.
\<close>

definition evLoop_body :: "eventQueue \<times> EtcdWrapper \<Rightarrow> mvEvent \<Rightarrow> eventQueue \<times> EtcdWrapper" where
  "evLoop_body s ev =
     (let eq = fst s; c = snd s;
          key = EtcdPathAppShardTask (parent_service eq);
          r = CompareAndSwap c key [] (ev_Value ev) clientv3_NoLease;
          eq1 = eq\<lparr>mu := Mutex_Lock (mu eq)\<rparr>;
          eq2 = eq1\<lparr>serviceBlk := serviceBlk eq1 - {Service ev}\<rparr>;
          eq3 = eq2\<lparr>mu := snd (Mutex_Unlock (mu eq2))\<rparr>
      in (eq3, snd r))"

fun evLoop :: "eventQueue \<times> EtcdWrapper \<Rightarrow> mvEvent list \<Rightarrow> eventQueue \<times> EtcdWrapper" where
  "evLoop s [] = s"
| "evLoop s (ev # evs) = evLoop (evLoop_body s ev) evs"

section \<open>Event queue of package server (the older variant)\<close>

definition evTypeShardUpdate :: eventType where "evTypeShardUpdate = 0"
definition evTypeShardDel :: eventType where "evTypeShardDel = 1"
definition evTypeContainerUpdate :: eventType where "evTypeContainerUpdate = 2"
definition evTypeContainerDel :: eventType where "evTypeContainerDel = 3"

record loadEvent =
  l_Service :: string
  l_Type :: eventType
  l_EnqueueTime :: "64 word"
  Load :: string

text \<open>
  \<open>curEvList\<close> is \<open>None\<close> for the nil map (\<open>newEventQueue\<close> does not make it):
  reading a nil map finds nothing, writing to it panics.
\<close>

record server_eventQueue =
  s_pq :: PriorityQueue
  s_mu :: Mutex
  evChan :: "string \<rightharpoonup> loadEvent list"
  curEvList :: "string set option"
  s_evLoops :: "string list"

definition server_Unlock :: "outcome \<times> server_eventQueue \<Rightarrow> outcome \<times> server_eventQueue" where
  "server_Unlock r =
     (let eq = snd r; m = Mutex_Unlock (s_mu eq)
      in if fst m then (fst r, eq\<lparr>s_mu := snd m\<rparr>)
         else (Fatal ''sync: unlock of unlocked mutex'', eq\<lparr>s_mu := snd m\<rparr>))"

definition server_defer_Unlock :: "outcome \<times> server_eventQueue \<Rightarrow> outcome \<times> server_eventQueue" where
  "server_defer_Unlock r =
     (case fst r of
        Returned \<Rightarrow> server_Unlock r
      | Panicked m \<Rightarrow> server_Unlock r
      | Blocked \<Rightarrow> r
      | Fatal m \<Rightarrow> r)"

definition server_chan_send :: "server_eventQueue \<Rightarrow> loadEvent \<Rightarrow> outcome \<times> server_eventQueue" where
  "server_chan_send eq ev =
     (let buf = (case evChan eq (l_Service ev) of None \<Rightarrow> [] | Some b \<Rightarrow> b)
      in if length buf < defaultEventChanLength
         then (Returned, eq\<lparr>evChan := (evChan eq)(l_Service ev \<mapsto> buf @ [ev])\<rparr>)
         else (Blocked, eq))"

text \<open>
  The body of the older \<open>push\<close>. Where the duplicate check trips it calls
  \<open>eq.mu.Unlock()\<close> itself before it returns, with the deferred Unlock still to run.
\<close>

definition server_push_body ::
  "(string \<Rightarrow> loadEvent option) \<Rightarrow> 64 word \<Rightarrow> server_eventQueue \<Rightarrow> Item \<Rightarrow> bool
     \<Rightarrow> outcome \<times> server_eventQueue" where
  "server_push_body unmarshal now eq item checkDup =
     (case unmarshal (Value item) of
        None \<Rightarrow> (Returned, eq)
      | Some ev \<Rightarrow>
          if checkDup \<and> l_Service ev \<in> (case curEvList eq of None \<Rightarrow> {} | Some b \<Rightarrow> b)
          then server_Unlock (Returned, eq)
          else if checkDup \<and> curEvList eq = None
          then (Panicked ''assignment to entry in nil map'', eq)
          else
            (let eq1 = (if checkDup
                        then eq\<lparr>curEvList := map_option (insert (l_Service ev)) (curEvList eq)\<rparr>
                        else eq);
                 eq2 = (case evChan eq1 (l_Service ev) of
                          None \<Rightarrow> eq1\<lparr>evChan := (evChan eq1)(l_Service ev \<mapsto> []),
                                       s_evLoops := s_evLoops eq1 @ [l_Service ev]\<rparr>
                        | Some ch \<Rightarrow> eq1)
             in if l_Type ev = evTypeShardUpdate \<or> l_Type ev = evTypeContainerUpdate
                then server_chan_send eq2 ev
                else if l_Type ev = evTypeShardDel \<or> l_Type ev = evTypeContainerDel
                then (if sint now \<ge> sint (Priority item) then server_chan_send eq2 ev
                      else (Returned, eq2\<lparr>s_pq := heap_Push (s_pq eq2) item\<rparr>))
                else (Returned, eq2)))"

definition server_push ::
  "(string \<Rightarrow> loadEvent option) \<Rightarrow> 64 word \<Rightarrow> server_eventQueue \<Rightarrow> Item \<Rightarrow> bool
     \<Rightarrow> outcome \<times> server_eventQueue" where
  "server_push unmarshal now eq item checkDup =
     (if held (s_mu eq) then (Blocked, eq)
      else server_defer_Unlock
             (server_push_body unmarshal now (eq\<lparr>s_mu := Mutex_Lock (s_mu eq)\<rparr>) item checkDup))"


section \<open>Move executor (operator of package smserver)\<close>

text \<open>
  \<open>'spec\<close> stands for \<open>apputil.ShardSpec\<close>, which the executor only passes on.
\<close>

record 'spec moveAction =
  ma_Service :: string
  ShardId :: string
  DropEndpoint :: string
  AddEndpoint :: string
  AllowDrop :: bool
  ma_Spec :: 'spec

text \<open>
  The HTTP client. \<open>answer\<close> tells how the n-th call of \<open>send\<close> ends for a URL: the
  request cannot be built (\<open>json.Marshal\<close> or \<open>http.NewRequest\<close> fails), \<open>Do\<close>
  fails, or a response with a status code arrives. \<open>requests\<close> lists the requests
  handed to \<open>Do\<close>: URL, shard id and spec.
\<close>

datatype reply = BuildError | DoError | Status nat

record 'spec httpClient =
  sends :: nat
  requests :: "(string \<times> string \<times> 'spec) list"
  answer :: "nat \<Rightarrow> string \<Rightarrow> reply"

definition send ::
  "'spec httpClient \<Rightarrow> string \<Rightarrow> 'spec \<Rightarrow> string \<Rightarrow> string \<Rightarrow> error option \<times> 'spec httpClient" where
  "send hc ident spec endpoint action =
     (let urlStr = ''http://'' @ endpoint @ ''/sm/admin/'' @ action @ ''-shard'';
          hc1 = hc\<lparr>sends := sends hc + 1\<rparr>;
          hc2 = hc1\<lparr>requests := requests hc1 @ [(urlStr, ident, spec)]\<rparr>
      in case answer hc (sends hc) urlStr of
           BuildError \<Rightarrow> (Some (Err ''request not built''), hc1)
         | DoError \<Rightarrow> (Some (Err ''request failed''), hc2)
         | Status code \<Rightarrow>
             if code \<noteq> 200 then (Some (Err ''[operator] FAILED to move shard, not 200''), hc2)
             else (None, hc2))"

definition dropOrAdd ::
  "'spec httpClient \<Rightarrow> 'spec moveAction \<Rightarrow> error option \<times> 'spec httpClient" where
  "dropOrAdd hc ma =
     (let r1 = (if DropEndpoint ma \<noteq> []
                then send hc (ShardId ma) (ma_Spec ma) (DropEndpoint ma) ''drop''
                else (None, hc))
      in case fst r1 of
           Some e \<Rightarrow> (Some e, snd r1)
         | None \<Rightarrow>
             if AddEndpoint ma \<noteq> []
             then (let r2 = send (snd r1) (ShardId ma) (ma_Spec ma) (AddEndpoint ma) ''add''
                   in case fst r2 of
                        Some e \<Rightarrow> (if \<not> AllowDrop ma then (Some e, snd r2) else (None, snd r2))
                      | None \<Rightarrow> (None, snd r2))
             else (None, snd r1))"

text \<open>
  The \<open>errgroup\<close>: every action runs, and \<open>Wait\<close> gives the first error. The
  goroutines are run in the order of the list.
\<close>

fun errgroup_Wait ::
  "'spec httpClient \<Rightarrow> 'spec moveAction list \<Rightarrow> error option \<times> 'spec httpClient" where
  "errgroup_Wait hc [] = (None, hc)"
| "errgroup_Wait hc (ma # mal) =
     (let r = dropOrAdd hc ma; rs = errgroup_Wait (snd r) mal
      in (case fst r of Some e \<Rightarrow> Some e | None \<Rightarrow> fst rs, snd rs))"

definition retry :: nat where "retry = 1"

text \<open>The loop \<open>for counter <= retry\<close>; it gives \<open>succ\<close> and the client.\<close>

function move_loop ::
  "'spec httpClient \<Rightarrow> 'spec moveAction list \<Rightarrow> nat \<Rightarrow> bool \<times> 'spec httpClient" where
  "move_loop hc mal counter =
     (if counter \<le> retry
      then (let r = errgroup_Wait hc mal
            in case fst r of
                 Some e \<Rightarrow> move_loop (snd r) mal (counter + 1)
               | None \<Rightarrow> (True, snd r))
      else (False, hc))"
  by pat_completeness auto
termination
  by (relation "measure (\<lambda>(hc, mal, counter). Suc retry - counter)") auto

declare move_loop.simps [simp del]

text \<open>
  \<open>move\<close>: \<open>unmarshal\<close> is \<open>json.Unmarshal\<close> into a moveActionList. The result is the
  error, the \<open>succ\<close> that the last log line reports, and the client.
\<close>

definition move ::
  "(string \<Rightarrow> error + 'spec moveAction list) \<Rightarrow> 'spec httpClient \<Rightarrow> string
     \<Rightarrow> error option \<times> bool \<times> 'spec httpClient" where
  "move unmarshal hc val =
     (case unmarshal val of
        Inl err \<Rightarrow> (Some err, False, hc)
      | Inr mal \<Rightarrow> (let r = move_loop hc mal 0 in (None, fst r, snd r)))"

section \<open>Local storage of the shard keeper\<close>

text \<open>
  Modelled from the spec: package storage is not among the sources. A \<open>Lease\<close> has an
  id and an expire time, \<open>NoLease\<close> has id 0, and two leases are equal when their ids
  are. The durable log holds one record per shard, stored under the id of its spec:
  the spec, the dispatched flag and the drop flag.
\<close>

record Lease =
  ID :: "64 word"
  Expire :: "64 word"

definition NoLease :: Lease where
  "NoLease = \<lparr>ID = 0, Expire = 0\<rparr>"

definition EqualTo :: "Lease \<Rightarrow> Lease \<Rightarrow> bool" where
  "EqualTo l r = (ID l = ID r)"

record ShardSpec =
  Id :: string
  sp_Service :: string
  Task :: string
  sp_Lease :: Lease
  UpdateTime :: "64 word"

record ShardKeeperDbValue =
  Spec :: ShardSpec
  Disp :: bool
  Drop :: bool

text \<open>
  Modelled from the spec: the storage's operations. Each writing operation is atomic:
  it fails as \<open>st_fault\<close> tells for the n-th operation and leaves the log as it was, or
  it succeeds. \<open>ForEach\<close> hands every record to the visitor, in the order of the log,
  and goes on when the visitor returns an error.
\<close>

record Storage =
  log :: "ShardKeeperDbValue list"
  st_ops :: nat
  st_fault :: "nat \<Rightarrow> error option"

definition storage_write ::
  "Storage \<Rightarrow> (ShardKeeperDbValue list \<Rightarrow> ShardKeeperDbValue list) \<Rightarrow> error option \<times> Storage" where
  "storage_write st f =
     (case st_fault st (st_ops st) of
        Some e \<Rightarrow> (Some e, st\<lparr>st_ops := st_ops st + 1\<rparr>)
      | None \<Rightarrow> (None, st\<lparr>st_ops := st_ops st + 1, log := f (log st)\<rparr>))"

definition lease_id :: "ShardKeeperDbValue \<Rightarrow> 64 word" where
  "lease_id dv = ID (sp_Lease (Spec dv))"

definition set_lease_id :: "64 word \<Rightarrow> ShardKeeperDbValue \<Rightarrow> ShardKeeperDbValue" where
  "set_lease_id l dv = dv\<lparr>Spec := (Spec dv)\<lparr>sp_Lease := (sp_Lease (Spec dv))\<lparr>ID := l\<rparr>\<rparr>\<rparr>"

definition storage_Add :: "Storage \<Rightarrow> ShardSpec \<Rightarrow> error option \<times> Storage" where
  "storage_Add st spec =
     storage_write st (\<lambda>l. filter (\<lambda>dv. Id (Spec dv) \<noteq> Id spec) l
                             @ [\<lparr>Spec = spec, Disp = False, Drop = False\<rparr>])"

definition storage_Remove :: "Storage \<Rightarrow> string \<Rightarrow> error option \<times> Storage" where
  "storage_Remove st shardID =
     storage_write st (filter (\<lambda>dv. Id (Spec dv) \<noteq> shardID))"

definition storage_Put :: "Storage \<Rightarrow> string \<Rightarrow> ShardKeeperDbValue \<Rightarrow> error option \<times> Storage" where
  "storage_Put st shardID dv =
     storage_write st (\<lambda>l. filter (\<lambda>x. Id (Spec x) \<noteq> shardID) l @ [dv])"

definition storage_MigrateLease :: "Storage \<Rightarrow> 64 word \<Rightarrow> 64 word \<Rightarrow> error option \<times> Storage" where
  "storage_MigrateLease st from to =
     storage_write st (map (\<lambda>dv. if lease_id dv = from then set_lease_id to dv else dv))"

definition storage_DropByLease :: "Storage \<Rightarrow> bool \<Rightarrow> 64 word \<Rightarrow> error option \<times> Storage" where
  "storage_DropByLease st exclude leaseID =
     storage_write st
       (map (\<lambda>dv. if (if exclude then lease_id dv \<noteq> leaseID else lease_id dv = leaseID)
                  then dv\<lparr>Drop := True\<rparr> else dv))"

definition storage_ForEach ::
  "Storage \<Rightarrow> ('acc \<Rightarrow> ShardKeeperDbValue \<Rightarrow> error option \<times> 'acc) \<Rightarrow> 'acc \<Rightarrow> 'acc" where
  "storage_ForEach st visitor acc = foldl (\<lambda>a dv. snd (visitor a dv)) acc (log st)"


section \<open>Shard keeper (pkg/apputil/core/shardkeeper.go)\<close>

text \<open>
  A watch event of the store client: \<open>IsCreate\<close> and \<open>IsModify\<close> are those of
  \<open>clientv3.Event\<close>.
\<close>

datatype mvccpb_EventType = PUT | DELETE

record KeyValue =
  Key :: string
  kv_Value :: string
  CreateRevision :: "64 word"
  ModRevision :: "64 word"

record Event =
  e_Type :: mvccpb_EventType
  Kv :: KeyValue
  PrevKv :: "KeyValue option"

definition IsCreate :: "Event \<Rightarrow> bool" where
  "IsCreate ev = (e_Type ev = PUT \<and> CreateRevision (Kv ev) = ModRevision (Kv ev))"

definition IsModify :: "Event \<Rightarrow> bool" where
  "IsModify ev = (e_Type ev = PUT \<and> CreateRevision (Kv ev) \<noteq> ModRevision (Kv ev))"

record Assignment =
  Drops :: "string list"

record ShardLease =
  sl_Lease :: Lease
  GuardLeaseID :: "64 word"
  BridgeLeaseID :: "64 word"
  Assignment :: "Assignment option"

text \<open>
  The application's callbacks (\<open>ShardPrimitives\<close>): \<open>Add_reply\<close> and \<open>Drop_reply\<close>
  give the error the application returns to its n-th call, for a shard id.
\<close>

datatype app_call = AppAdd string | AppDrop string

record ShardPrimitives =
  app_calls :: "app_call list"
  Add_reply :: "nat \<Rightarrow> string \<Rightarrow> error option"
  Drop_reply :: "nat \<Rightarrow> string \<Rightarrow> error option"

definition app_Add :: "ShardPrimitives \<Rightarrow> string \<Rightarrow> ShardSpec \<Rightarrow> error option \<times> ShardPrimitives" where
  "app_Add app ident spec =
     (Add_reply app (length (app_calls app)) ident, app\<lparr>app_calls := app_calls app @ [AppAdd ident]\<rparr>)"

definition app_Drop :: "ShardPrimitives \<Rightarrow> string \<Rightarrow> error option \<times> ShardPrimitives" where
  "app_Drop app ident =
     (Drop_reply app (length (app_calls app)) ident, app\<lparr>app_calls := app_calls app @ [AppDrop ident]\<rparr>)"

text \<open>
  The keeper's state; \<open>o_Service\<close>, \<open>ContainerId\<close>, \<open>Client\<close> and \<open>AppShardImpl\<close>
  are the fields of \<open>containerOpts\<close> that the functions below read.
\<close>

record ShardKeeper =
  storage :: Storage
  initialized :: bool
  bridgeLease :: Lease
  guardLease :: Lease
  o_Service :: string
  ContainerId :: string
  Client :: EtcdWrapper
  AppShardImpl :: ShardPrimitives

text \<open>
  \<open>acquireGuardLease\<close>. \<open>json\<close> is \<open>Lease.String\<close>. The deferred function is
  registered after the three early returns: from there on every return sets
  \<open>bridgeLease\<close> to \<open>NoLease\<close>.
\<close>

definition acquireGuardLease ::
  "(Lease \<Rightarrow> string) \<Rightarrow> ShardKeeper \<Rightarrow> Event \<Rightarrow> ShardLease \<Rightarrow> error option \<times> ShardKeeper" where
  "acquireGuardLease json sk ev lease =
     (if IsCreate ev
      then (Some (Err ''guard node should be created before shardkeeper started''), sk)
      else if EqualTo (bridgeLease sk) NoLease
      then (Some (Err ''bridge lease is zero, can not participating rb''), sk)
      else if 0 < sint (BridgeLeaseID lease) \<and> ID (bridgeLease sk) \<noteq> BridgeLeaseID lease
      then (Some (Err ''bridge lease not match''), sk)
      else
        (let sk1 = sk\<lparr>guardLease := sl_Lease lease\<rparr>;
             m = storage_MigrateLease (storage sk1) (ID (bridgeLease sk1)) (ID (sl_Lease lease));
             sk2 = sk1\<lparr>storage := snd m\<rparr>
         in case fst m of
              Some err \<Rightarrow> (Some err, sk2\<lparr>bridgeLease := NoLease\<rparr>)
            | None \<Rightarrow>
                (let d = storage_DropByLease (storage sk2) True (ID (sl_Lease lease));
                     sk3 = sk2\<lparr>storage := snd d\<rparr>
                 in case fst d of
                      Some err \<Rightarrow> (Some err, sk3\<lparr>bridgeLease := NoLease\<rparr>)
                    | None \<Rightarrow>
                        (let sessionPath = LeaseSessionPath (o_Service sk3) (ContainerId sk3);
                             p = etcd_Put (Client sk3) sessionPath (json (guardLease sk3))
                                   (ID (guardLease sk3));
                             sk4 = sk3\<lparr>Client := snd p\<rparr>
                         in (None, sk4\<lparr>bridgeLease := NoLease\<rparr>)))))"

definition Add :: "ShardKeeper \<Rightarrow> string \<Rightarrow> ShardSpec \<Rightarrow> error option \<times> ShardKeeper" where
  "Add sk ident spec =
     (if \<not> EqualTo (sp_Lease spec) (guardLease sk)
      then (Some (Err ''lease mismatch''), sk)
      else (let r = storage_Add (storage sk) spec in (fst r, sk\<lparr>storage := snd r\<rparr>)))"

subsection \<open>sync\<close>

text \<open>
  What the closures of \<open>sync\<close> share: \<open>dropShardIDs\<close>, \<open>updateDbValues\<close> (a Go map,
  kept as an association list with one entry per key) and the application.
\<close>

type_synonym sync_acc = "string list \<times> (string \<times> ShardKeeperDbValue) list \<times> ShardPrimitives"

definition dropFn :: "sync_acc \<Rightarrow> ShardKeeperDbValue \<Rightarrow> error option \<times> sync_acc" where
  "dropFn acc dv =
     (case acc of (dropShardIDs, updateDbValues, app) \<Rightarrow>
        (let r = app_Drop app (Id (Spec dv))
         in if fst r = None \<or> fst r = Some ErrNotExist
            then (None, (dropShardIDs @ [Id (Spec dv)], updateDbValues, snd r))
            else (fst r, (dropShardIDs, updateDbValues, snd r))))"

definition addFn :: "sync_acc \<Rightarrow> ShardKeeperDbValue \<Rightarrow> error option \<times> sync_acc" where
  "addFn acc dv =
     (case acc of (dropShardIDs, updateDbValues, app) \<Rightarrow>
        (let r = app_Add app (Id (Spec dv)) (Spec dv)
         in if fst r = None \<or> fst r = Some ErrExist
            then (None, (dropShardIDs,
                         AList.update (Id (Spec dv)) (dv\<lparr>Disp := True\<rparr>) updateDbValues, snd r))
            else (fst r, (dropShardIDs, updateDbValues, snd r))))"

definition visit :: "ShardKeeper \<Rightarrow> sync_acc \<Rightarrow> ShardKeeperDbValue \<Rightarrow> error option \<times> sync_acc" where
  "visit sk acc dv =
     (if \<not> EqualTo (sp_Lease (Spec dv)) (guardLease sk) \<and>
         \<not> EqualTo (sp_Lease (Spec dv)) (bridgeLease sk)
      then dropFn acc dv
      else if Disp dv \<and> initialized sk then (None, acc)
      else if Drop dv then dropFn acc dv
      else addFn acc dv)"

fun remove_loop :: "Storage \<Rightarrow> string list \<Rightarrow> error option \<times> Storage" where
  "remove_loop st [] = (None, st)"
| "remove_loop st (shardID # ids) =
     (case storage_Remove st shardID of
        (Some err, st') \<Rightarrow> (Some err, st')
      | (None, st') \<Rightarrow> remove_loop st' ids)"

text \<open>
  The range over \<open>updateDbValues\<close>, in the order of the association list (Go leaves
  the order of a map open; the keys differ, so a completed loop stores the same records
  in any order).
\<close>

fun put_loop :: "Storage \<Rightarrow> (string \<times> ShardKeeperDbValue) list \<Rightarrow> error option \<times> Storage" where
  "put_loop st [] = (None, st)"
| "put_loop st ((shardID, dv) # rest) =
     (case storage_Put st shardID (dv\<lparr>Disp := True\<rparr>) of
        (Some err, st') \<Rightarrow> (Some err, st')
      | (None, st') \<Rightarrow> put_loop st' rest)"

definition sync :: "ShardKeeper \<Rightarrow> error option \<times> ShardKeeper" where
  "sync sk =
     (case storage_ForEach (storage sk) (visit sk) ([], [], AppShardImpl sk) of
        (dropShardIDs, updateDbValues, app) \<Rightarrow>
          (let sk1 = sk\<lparr>AppShardImpl := app\<rparr>
           in case remove_loop (storage sk1) dropShardIDs of
                (Some err, st) \<Rightarrow> (Some err, sk1\<lparr>storage := st\<rparr>)
              | (None, st) \<Rightarrow>
                  (case put_loop st updateDbValues of
                     (Some err, st') \<Rightarrow> (Some err, sk1\<lparr>storage := st'\<rparr>)
                   | (None, st') \<Rightarrow>
                       (None, sk1\<lparr>storage := st',
                                   initialized := (if \<not> initialized sk1 then True else initialized sk1)\<rparr>))))"


section \<open>Predicates of the properties\<close>

text \<open>
  The max-heap property of the array: every node that has a child is at least as large
  as the child. \<open>heap_upto\<close> says the same from the child's side, for the first \<open>n\<close>
  places; \<open>down_inv\<close> and \<open>up_inv\<close> are the invariants of the two loops: the property
  holds but for the place \<open>i\<close> that the loop is moving.
\<close>

definition max_heap :: "PriorityQueue \<Rightarrow> bool" where
  "max_heap h =
     (\<forall>i\<in>set [0..<length h].
        (2 * i + 1 < length h \<longrightarrow> sint (Priority (h ! (2 * i + 1))) \<le> sint (Priority (h ! i))) \<and>
        (2 * i + 2 < length h \<longrightarrow> sint (Priority (h ! (2 * i + 2))) \<le> sint (Priority (h ! i))))"

definition heap_upto :: "PriorityQueue \<Rightarrow> int \<Rightarrow> bool" where
  "heap_upto h n = (\<forall>k. 0 < k \<and> k < n \<longrightarrow> prio h k \<le> prio h ((k - 1) div 2))"

definition down_inv :: "PriorityQueue \<Rightarrow> int \<Rightarrow> int \<Rightarrow> bool" where
  "down_inv h i n =
     ((\<forall>k. 0 < k \<and> k < n \<and> (k - 1) div 2 \<noteq> i \<longrightarrow> prio h k \<le> prio h ((k - 1) div 2)) \<and>
      (\<forall>k. 0 < i \<and> 0 < k \<and> k < n \<and> (k - 1) div 2 = i \<longrightarrow> prio h k \<le> prio h ((i - 1) div 2)))"

definition up_inv :: "PriorityQueue \<Rightarrow> int \<Rightarrow> int \<Rightarrow> bool" where
  "up_inv h j n =
     ((\<forall>k. 0 < k \<and> k < n \<and> k \<noteq> j \<longrightarrow> prio h k \<le> prio h ((k - 1) div 2)) \<and>
      (\<forall>k. 0 < j \<and> 0 < k \<and> k < n \<and> (k - 1) div 2 = j \<longrightarrow> prio h k \<le> prio h ((j - 1) div 2)))"

text \<open>A sequence of \<open>heap.Push\<close> and \<open>heap.Pop\<close> calls, run from a queue.\<close>

datatype heap_op = OpPush Item | OpPop

fun run_ops :: "heap_op list \<Rightarrow> PriorityQueue \<Rightarrow> PriorityQueue" where
  "run_ops [] h = h"
| "run_ops (OpPush x # os) h = run_ops os (heap_Push h x)"
| "run_ops (OpPop # os) h = run_ops os (snd (heap_Pop h))"

text \<open>
  The rejection of \<open>acquireGuardLease\<close>: a bridge lease is held, and the event names
  a positive \<open>BridgeLeaseID\<close> that is not its id.
\<close>

definition bridge_mismatch :: "ShardKeeper \<Rightarrow> ShardLease \<Rightarrow> bool" where
  "bridge_mismatch sk lease =
     (\<not> EqualTo (bridgeLease sk) NoLease \<and>
      0 < sint (BridgeLeaseID lease) \<and> ID (bridgeLease sk) \<noteq> BridgeLeaseID lease)"

text \<open>
  The lease of a record is that of the keeper's guard or bridge (by id); the
  application's Drop callback answers nil or \<open>ErrNotExist\<close> to every call; and the
  invariant of the scan of \<open>sync\<close> over the records \<open>seen\<close> so far: a record seen
  with another lease is scheduled for removal, and a record scheduled for an update
  has a lease of the keeper.
\<close>

definition lease_ok :: "ShardKeeper \<Rightarrow> ShardKeeperDbValue \<Rightarrow> bool" where
  "lease_ok sk dv =
     (EqualTo (sp_Lease (Spec dv)) (guardLease sk) \<or> EqualTo (sp_Lease (Spec dv)) (bridgeLease sk))"

definition drop_succeeds :: "ShardPrimitives \<Rightarrow> bool" where
  "drop_succeeds app =
     (\<forall>n s. Drop_reply app n s = None \<or> Drop_reply app n s = Some ErrNotExist)"

definition sync_inv :: "ShardKeeper \<Rightarrow> ShardKeeperDbValue list \<Rightarrow> sync_acc \<Rightarrow> bool" where
  "sync_inv sk seen acc =
     (case acc of (dropShardIDs, updateDbValues, app) \<Rightarrow>
        (\<forall>dv\<in>set seen. \<not> lease_ok sk dv \<longrightarrow> Id (Spec dv) \<in> set dropShardIDs) \<and>
        (\<forall>p\<in>set updateDbValues. lease_ok sk (snd p)) \<and>
        Drop_reply app = Drop_reply (AppShardImpl sk))"

section \<open>Example states\<close>

text \<open>
  A keeper in the middle of a round: bridge lease 5, guard lease 3, and three records
  with the leases 5, 3 and 9. \<open>ex_modify\<close> is a modify event of the guard key and
  \<open>ex_guard b\<close> the guard value with lease 9 that names the bridge \<open>b\<close>.
\<close>

definition ex_record :: "string \<Rightarrow> 64 word \<Rightarrow> bool \<Rightarrow> bool \<Rightarrow> ShardKeeperDbValue" where
  "ex_record ident l dispatched dropped =
     \<lparr>Spec = \<lparr>Id = ident, sp_Service = ''svc'', Task = ''t'',
              sp_Lease = \<lparr>ID = l, Expire = 0\<rparr>, UpdateTime = 0\<rparr>,
      Disp = dispatched, Drop = dropped\<rparr>"

definition ex_keeper :: "(nat \<Rightarrow> error option) \<Rightarrow> ShardKeeper" where
  "ex_keeper etcd_fault =
     \<lparr>storage = \<lparr>log = [ex_record ''s1'' 5 True False, ex_record ''s2'' 3 True False,
                        ex_record ''s3'' 9 False False],
                 st_ops = 0, st_fault = (\<lambda>n. None)\<rparr>,
      initialized = True,
      bridgeLease = \<lparr>ID = 5, Expire = 0\<rparr>,
      guardLease = \<lparr>ID = 3, Expire = 0\<rparr>,
      o_Service = ''svc'', ContainerId = ''c1'',
      Client = \<lparr>kv = Map.empty, calls = [], fault = etcd_fault\<rparr>,
      AppShardImpl = \<lparr>app_calls = [], Add_reply = (\<lambda>n s. None), Drop_reply = (\<lambda>n s. None)\<rparr>\<rparr>"

definition ex_modify :: Event where
  "ex_modify =
     \<lparr>e_Type = PUT,
      Kv = \<lparr>Key = ''lease/guard/svc'', kv_Value = ''v'', CreateRevision = 1, ModRevision = 4\<rparr>,
      PrevKv = None\<rparr>"

definition ex_guard :: "64 word \<Rightarrow> ShardLease" where
  "ex_guard b = \<lparr>sl_Lease = \<lparr>ID = 9, Expire = 0\<rparr>, GuardLeaseID = 0, BridgeLeaseID = b,
                 Assignment = None\<rparr>"

text \<open>
  A queue of the coordinator owned by the service "sm", a store, an event of the service
  "app", items and decoders for the two queues, and a task of one move with a client
  whose every response has the given status code.
\<close>

definition ex_queue :: "PriorityQueue \<Rightarrow> string set \<Rightarrow> eventQueue" where
  "ex_queue h blk =
     \<lparr>parent_service = ''sm'', pq = h, mu = \<lparr>held = False, ops = []\<rparr>,
      serviceEvChan = Map.empty, serviceBlk = blk, evLoops = []\<rparr>"

definition ex_etcd :: "(nat \<Rightarrow> error option) \<Rightarrow> EtcdWrapper" where
  "ex_etcd f = \<lparr>kv = Map.empty, calls = [], fault = f\<rparr>"

definition ex_event :: mvEvent where
  "ex_event = \<lparr>Service = ''app'', Type = tShardChanged, EnqueueTime = 0, ev_Value = ''moves''\<rparr>"

definition ex_item :: "string \<Rightarrow> 64 word \<Rightarrow> int \<Rightarrow> Item" where
  "ex_item v p i = \<lparr>Value = v, Priority = p, Index = i\<rparr>"

definition ex_decode :: "string \<Rightarrow> mvEvent option" where
  "ex_decode v =
     (if v = ''load'' then Some \<lparr>Service = ''app'', Type = tShardLoadChanged, EnqueueTime = 0, ev_Value = ''moves''\<rparr>
      else if v = ''load2'' then Some \<lparr>Service = ''app2'', Type = tShardLoadChanged, EnqueueTime = 0, ev_Value = ''moves2''\<rparr>
      else None)"

text \<open>
  The queue after two calls of \<open>push\<close> at time 0, with the duplicate check: a load event
  of "app" that is due at 100 and one of "app2" that is due at 5.
\<close>

definition ex_deferred :: eventQueue where
  "ex_deferred =
     snd (push ex_decode 0
            (snd (push ex_decode 0 (ex_queue [] {}) (ex_item ''load'' 100 0) True))
            (ex_item ''load2'' 5 0) True)"

definition ex_server_queue :: "string set option \<Rightarrow> server_eventQueue" where
  "ex_server_queue cur =
     \<lparr>s_pq = [], s_mu = \<lparr>held = False, ops = []\<rparr>, evChan = Map.empty, curEvList = cur,
      s_evLoops = []\<rparr>"

definition ex_server_decode :: "string \<Rightarrow> loadEvent option" where
  "ex_server_decode v =
     (if v = ''load'' then Some \<lparr>l_Service = ''app'', l_Type = evTypeShardUpdate, l_EnqueueTime = 0, Load = ''10''\<rparr>
      else None)"

definition ex_action :: "unit moveAction" where
  "ex_action = \<lparr>ma_Service = ''app'', ShardId = ''s1'', DropEndpoint = ''e1'', AddEndpoint = ''e2'',
                AllowDrop = False, ma_Spec = ()\<rparr>"

definition ex_unmarshal :: "string \<Rightarrow> error + unit moveAction list" where
  "ex_unmarshal v = (if v = ''good'' then Inr [ex_action] else Inl (Err ''invalid character''))"

definition ex_http :: "nat \<Rightarrow> unit httpClient" where
  "ex_http code = \<lparr>sends = 0, requests = [], answer = (\<lambda>n url. Status code)\<rparr>"

section \<open>The heap\<close>

lemma length_Swap [simp]: "length (Swap h i j) = length h"
  by (simp add: Swap_def Let_def)

lemma Len_Swap [simp]: "Len (Swap h i j) = Len h"
  by (simp add: Len_def)

lemma prio_Swap:
  assumes "0 \<le> i" "i < Len h" "0 \<le> j" "j < Len h" "0 \<le> k" "k < Len h"
  shows "prio (Swap h i j) k =
           (if k = j then prio h i else if k = i then prio h j else prio h k)"
  using assms by (auto simp: Swap_def prio_def Len_def Let_def nth_list_update nat_eq_iff)

lemma sdiv_parent: "0 \<le> (j::int) \<Longrightarrow> (j - 1) sdiv 2 = (if j = 0 then 0 else (j - 1) div 2)"
  by (simp add: signed_divide_int_def sgn_if)

lemma down_heap:
  "0 \<le> i \<Longrightarrow> n \<le> Len h \<Longrightarrow> down_inv h i n \<Longrightarrow> heap_upto (down h i n) n"
proof (induction h i n rule: down.induct)
  case (1 h i n)
  define j1 where "j1 = 2 * i + 1"
  define j2 where "j2 = j1 + 1"
  define j where "j = (if j2 < n \<and> Less h j2 j1 then j2 else j1)"
  show ?case
  proof (cases "j1 \<ge> n \<or> j1 < 0")
    case True
    then have nochild: "\<And>k. 0 < k \<Longrightarrow> k < n \<Longrightarrow> (k - 1) div 2 \<noteq> i"
      using "1.prems"(1) unfolding j1_def by linarith
    have "down h i n = h" using True unfolding j1_def by (subst down.simps) simp
    then show ?thesis using "1.prems"(3) nochild by (auto simp: heap_upto_def down_inv_def)
  next
    case False
    then have j1: "j1 < n" "0 \<le> j1" by auto
    have jr: "i < j" "j < n" "(j - 1) div 2 = i" "0 < j"
      using j1 "1.prems"(1) unfolding j_def j2_def j1_def by auto
    have jmax: "prio h k \<le> prio h j" if k: "0 < k" "k < n" "(k - 1) div 2 = i" for k
    proof -
      have "k = j1 \<or> k = j2" using k unfolding j1_def j2_def by linarith
      then show ?thesis using k unfolding j_def by (auto simp: Less_def)
    qed
    have d: "down h i n = (if \<not> Less h j i then h else down (Swap h i j) j n)"
      using False unfolding j_def j2_def j1_def by (subst down.simps) (simp add: Let_def)
    show ?thesis
    proof (cases "Less h j i")
      case False
      have "prio h k \<le> prio h i" if "0 < k" "k < n" "(k - 1) div 2 = i" for k
        using jmax[OF that] False by (simp add: Less_def)
      then show ?thesis using "1.prems"(3) d False unfolding heap_upto_def down_inv_def by metis
    next
      case True
      define h' where "h' = Swap h i j"
      have pr: "prio h' k =
           (if k = j then prio h i else if k = i then prio h j else prio h k)"
        if "0 \<le> k" "k < n" for k
        unfolding h'_def by (rule prio_Swap) (use jr "1.prems" that in linarith)+
      have lt: "prio h i < prio h j" using True by (simp add: Less_def)
      have inv': "down_inv h' j n"
        unfolding down_inv_def
      proof (intro conjI allI impI)
        fix k assume k: "0 < k \<and> k < n \<and> (k - 1) div 2 \<noteq> j"
        define p where "p = (k - 1) div 2"
        have pk: "0 \<le> p" "p < n" "p < k" "p \<noteq> j" using k unfolding p_def by linarith+
        have "prio h' k \<le> prio h' p"
        proof (cases "p = i")
          case True
          then have "prio h k \<le> prio h j" using jmax[of k] k p_def by simp
          moreover have "k \<noteq> i" using pk True by simp
          ultimately show ?thesis using pr[of k] pr[of p] k pk True lt jr by auto
        next
          case np: False
          show ?thesis
          proof (cases "k = i")
            case True
            then have "0 < i" using k by simp
            then have "prio h j \<le> prio h ((i - 1) div 2)"
              using "1.prems"(3) jr unfolding down_inv_def by blast
            then show ?thesis using pr[of k] pr[of p] k pk True np jr p_def by auto
          next
            case False
            have "k \<noteq> j" using jr np p_def by auto
            moreover have "prio h k \<le> prio h p"
              using "1.prems"(3) k np unfolding down_inv_def p_def by blast
            ultimately show ?thesis using pr[of k] pr[of p] k pk False np by auto
          qed
        qed
        then show "prio h' k \<le> prio h' ((k - 1) div 2)" by (simp add: p_def)
      next
        fix k assume k: "0 < j \<and> 0 < k \<and> k < n \<and> (k - 1) div 2 = j"
        then have kk: "k \<noteq> i" "k \<noteq> j" "0 \<le> k" "k < n" using jr by linarith+
        have "(k - 1) div 2 \<noteq> i" using k jr by linarith
        then have "prio h k \<le> prio h j"
          using "1.prems"(3) k unfolding down_inv_def by metis
        moreover have "prio h' k = prio h k" using pr[of k] kk by simp
        moreover have "prio h' ((j - 1) div 2) = prio h j"
          using jr pr[of i] "1.prems"(1) by simp
        ultimately show "prio h' k \<le> prio h' ((j - 1) div 2)" by simp
      qed
      have "heap_upto (down h' j n) n"
        unfolding h'_def
      proof (rule "1.IH"[OF j1_def False j2_def j_def])
        show "\<not> \<not> Less h j i" using True by simp
        show "0 \<le> j" using jr by simp
        show "n \<le> Len (Swap h i j)" using "1.prems" by simp
        show "down_inv (Swap h i j) j n" using inv' by (simp add: h'_def)
      qed
      then show ?thesis using d True by (simp add: h'_def)
    qed
  qed
qed


lemma up_heap:
  "0 \<le> j \<Longrightarrow> j < n \<Longrightarrow> n = Len h \<Longrightarrow> up_inv h j n \<Longrightarrow> heap_upto (up h j) n"
proof (induction h j rule: up.induct)
  case (1 h j)
  define i where "i = (j - 1) sdiv 2"
  have u: "up h j = (if i = j \<or> \<not> Less h j i then h else up (Swap h i j) i)"
    unfolding i_def by (subst up.simps) (simp add: Let_def)
  show ?case
  proof (cases "i = j \<or> \<not> Less h j i")
    case True
    have "prio h j \<le> prio h ((j - 1) div 2)" if "0 < j"
      using True that "1.prems"(1) by (auto simp: i_def sdiv_parent Less_def)
    then show ?thesis using "1.prems"(4) u True unfolding heap_upto_def up_inv_def by metis
  next
    case False
    then have j0: "0 < j" using "1.prems"(1) by (auto simp: i_def sdiv_parent split: if_splits)
    then have i: "i = (j - 1) div 2" "0 \<le> i" "i < j" using sdiv_parent[of j] by (auto simp: i_def)
    have lt: "prio h i < prio h j" using False by (simp add: Less_def)
    define h' where "h' = Swap h i j"
    have pr: "prio h' k =
         (if k = j then prio h i else if k = i then prio h j else prio h k)"
      if "0 \<le> k" "k < n" for k
      unfolding h'_def by (rule prio_Swap) (use i "1.prems" that in linarith)+
    have inv': "up_inv h' i n"
      unfolding up_inv_def
    proof (intro conjI allI impI)
      fix k assume k: "0 < k \<and> k < n \<and> k \<noteq> i"
      define p where "p = (k - 1) div 2"
      have pk: "0 \<le> p" "p < n" "p < k" using k unfolding p_def by linarith+
      have "prio h' k \<le> prio h' p"
      proof (cases "k = j")
        case True
        then have "p = i" using i p_def by simp
        then show ?thesis using pr[of k] pr[of p] True k pk lt by auto
      next
        case kj: False
        then have le: "prio h k \<le> prio h p"
          using "1.prems"(4) k unfolding up_inv_def p_def by blast
        show ?thesis
        proof (cases "p = j")
          case True
          then have "prio h k \<le> prio h i"
            using "1.prems"(4) k j0 i unfolding up_inv_def p_def by metis
          then show ?thesis using pr[of k] pr[of p] True k kj pk i by auto
        next
          case False
          then show ?thesis using pr[of k] pr[of p] k kj pk le lt by auto
        qed
      qed
      then show "prio h' k \<le> prio h' ((k - 1) div 2)" by (simp add: p_def)
    next
      fix k assume k: "0 < i \<and> 0 < k \<and> k < n \<and> (k - 1) div 2 = i"
      define g where "g = (i - 1) div 2"
      have g: "0 \<le> g" "g < i" "g < n" "g \<noteq> j" using k i "1.prems" unfolding g_def by linarith+
      have ig: "prio h i \<le> prio h g"
        using "1.prems"(4) k i "1.prems"(2) unfolding up_inv_def g_def
        by (metis less_le_not_le order_less_trans)
      have "prio h' k \<le> prio h' g"
      proof (cases "k = j")
        case True
        then show ?thesis using pr[of k] pr[of g] k g ig by auto
      next
        case False
        then have "prio h k \<le> prio h i" using "1.prems"(4) k unfolding up_inv_def by metis
        moreover have "k \<noteq> i" using k by linarith
        ultimately show ?thesis using pr[of k] pr[of g] k g ig False by auto
      qed
      then show "prio h' k \<le> prio h' ((i - 1) div 2)" by (simp add: g_def)
    qed
    have "heap_upto (up h' i) n"
      unfolding h'_def
    proof (rule "1.IH"[OF i_def False])
      show "0 \<le> i" "i < n" using i "1.prems" by linarith+
      show "n = Len (Swap h i j)" using "1.prems" by simp
      show "up_inv (Swap h i j) i n" using inv' by (simp add: h'_def)
    qed
    then show ?thesis using u False by (simp add: h'_def)
  qed
qed

lemma length_down [simp]: "length (down h i n) = length h"
proof (induction h i n rule: down.induct)
  case (1 h i n)
  show ?case using "1.IH" by (subst down.simps) (simp add: Let_def)
qed

lemma length_up [simp]: "length (up h j) = length h"
proof (induction h j rule: up.induct)
  case (1 h j)
  show ?case using "1.IH" by (subst up.simps) (simp add: Let_def)
qed

lemma Swap_nth_other:
  "0 \<le> i \<Longrightarrow> 0 \<le> j \<Longrightarrow> 0 \<le> k \<Longrightarrow> k \<noteq> i \<Longrightarrow> k \<noteq> j \<Longrightarrow> Swap h i j ! nat k = h ! nat k"
  by (simp add: Swap_def Let_def nat_eq_iff)

lemma down_nth_ge:
  "n \<le> k \<Longrightarrow> 0 \<le> k \<Longrightarrow> down h i n ! nat k = h ! nat k"
proof (induction h i n rule: down.induct)
  case (1 h i n)
  define j1 where "j1 = 2 * i + 1"
  define j2 where "j2 = j1 + 1"
  define j where "j = (if j2 < n \<and> Less h j2 j1 then j2 else j1)"
  show ?case
  proof (cases "j1 \<ge> n \<or> j1 < 0")
    case True
    then show ?thesis unfolding j1_def by (subst down.simps) simp
  next
    case False
    have d: "down h i n = (if \<not> Less h j i then h else down (Swap h i j) j n)"
      using False unfolding j_def j2_def j1_def by (subst down.simps) (simp add: Let_def)
    have jr: "0 \<le> i" "i < j" "j < n" using False unfolding j_def j2_def j1_def by auto
    show ?thesis
    proof (cases "Less h j i")
      case False
      then show ?thesis using d by simp
    next
      case True
      have "down (Swap h i j) j n ! nat k = Swap h i j ! nat k"
        by (rule "1.IH"[OF j1_def False j2_def j_def]) (use True "1.prems" in auto)
      also have "\<dots> = h ! nat k"
        by (rule Swap_nth_other) (use jr "1.prems" in linarith)+
      finally show ?thesis using d True by simp
    qed
  qed
qed

lemma heap_root_max:
  assumes "heap_upto h n"
  shows "0 \<le> k \<Longrightarrow> k < n \<Longrightarrow> prio h k \<le> prio h 0"
proof (induction "nat k" arbitrary: k rule: less_induct)
  case less
  show ?case
  proof (cases "k = 0")
    case True
    then show ?thesis by simp
  next
    case False
    define p where "p = (k - 1) div 2"
    have p: "0 \<le> p" "p < k" "p < n" using False less.prems unfolding p_def by linarith+
    have "prio h k \<le> prio h p" using assms False less.prems unfolding heap_upto_def p_def by simp
    moreover have "prio h p \<le> prio h 0" by (rule less.hyps) (use p in auto)
    ultimately show ?thesis by linarith
  qed
qed

lemma max_heap_iff: "max_heap h = heap_upto h (Len h)"
proof
  assume m: "max_heap h"
  show "heap_upto h (Len h)"
    unfolding heap_upto_def
  proof (intro allI impI)
    fix k :: int assume k: "0 < k \<and> k < Len h"
    define c where "c = nat k"
    define i where "i = (c - 1) div 2"
    have c: "0 < c" "c < length h" "k = int c" using k by (auto simp: c_def Len_def)
    have i: "i < length h" "c = 2 * i + 1 \<or> c = 2 * i + 2" using c unfolding i_def by presburger+
    have "sint (Priority (h ! c)) \<le> sint (Priority (h ! i))"
      using m i c unfolding max_heap_def by auto
    moreover have "nat ((k - 1) div 2) = i" using c unfolding i_def by (simp add: nat_div_distrib nat_diff_distrib)
    ultimately show "prio h k \<le> prio h ((k - 1) div 2)" using c by (simp add: prio_def)
  qed
next
  assume u: "heap_upto h (Len h)"
  have child: "sint (Priority (h ! c)) \<le> sint (Priority (h ! i))"
    if "c < length h" "c = 2 * i + 1 \<or> c = 2 * i + 2" for c i
  proof -
    have "0 < int c \<and> int c < Len h" using that by (auto simp: Len_def)
    then have "prio h (int c) \<le> prio h ((int c - 1) div 2)"
      using u unfolding heap_upto_def by blast
    moreover have "(int c - 1) div 2 = int i" using that(2) by auto
    ultimately have "prio h (int c) \<le> prio h (int i)" by simp
    then show ?thesis by (simp only: prio_def nat_int)
  qed
  show "max_heap h"
    unfolding max_heap_def by (intro ballI conjI impI) (rule child, simp, simp)+
qed


lemma prio_append_old: "0 \<le> k \<Longrightarrow> k < Len h \<Longrightarrow> prio (h @ [x]) k = prio h k"
  by (simp add: prio_def Len_def nth_append nat_less_iff)

lemma heap_Push_heap:
  assumes "heap_upto h (Len h)"
  shows "heap_upto (heap_Push h x) (Len (heap_Push h x))"
proof -
  define h1 where "h1 = Push h x"
  define n where "n = Len h1"
  have h1: "h1 = h @ [x\<lparr>Index := Len h\<rparr>]" by (simp add: h1_def Push_def Let_def)
  have n: "n = Len h + 1" by (simp add: n_def h1 Len_def)
  have inv: "up_inv h1 (n - 1) n"
    unfolding up_inv_def
  proof (intro conjI allI impI)
    fix k assume k: "0 < k \<and> k < n \<and> k \<noteq> n - 1"
    then have kk: "0 \<le> k" "k < Len h" "0 \<le> (k - 1) div 2" "(k - 1) div 2 < Len h" using n by linarith+
    have "prio h k \<le> prio h ((k - 1) div 2)" using assms k kk unfolding heap_upto_def by simp
    then show "prio h1 k \<le> prio h1 ((k - 1) div 2)"
      unfolding h1 using kk by (simp add: prio_append_old)
  next
    fix k assume k: "0 < n - 1 \<and> 0 < k \<and> k < n \<and> (k - 1) div 2 = n - 1"
    then have False by linarith
    then show "prio h1 k \<le> prio h1 ((n - 1 - 1) div 2)" ..
  qed
  have "heap_upto (up h1 (n - 1)) n"
    by (rule up_heap[OF _ _ _ inv]) (use n in \<open>auto simp: n_def Len_def\<close>)
  moreover have "heap_Push h x = up h1 (n - 1)" by (simp add: heap_Push_def h1_def n_def Let_def)
  moreover have "Len (up h1 (n - 1)) = n" by (simp add: Len_def n_def)
  ultimately show ?thesis by simp
qed

lemma heap_Pop_Nil: "heap_Pop [] = (None, [])"
  by (subst heap_Pop_def) (simp add: Len_def Let_def Swap_def Pop_def down.simps)

lemma heap_Pop_eq:
  assumes "h \<noteq> []"
  shows "heap_Pop h = (Some ((h ! 0)\<lparr>Index := - 1\<rparr>),
                       take (length h - 1) (down (Swap h 0 (Len h - 1)) 0 (Len h - 1)))"
proof -
  define n where "n = Len h - 1"
  define h1 where "h1 = Swap h 0 n"
  define h2 where "h2 = down h1 0 n"
  have "0 < length h" using assms by simp
  then have n: "0 \<le> n" "nat n = length h - 1" "nat n < length h"
    unfolding n_def Len_def by linarith+
  have "h2 ! nat n = h1 ! nat n" unfolding h2_def by (rule down_nth_ge) (use n in auto)
  moreover have "(h1 ! nat n)\<lparr>Index := - 1\<rparr> = (h ! 0)\<lparr>Index := - 1\<rparr>"
    using n assms by (cases "length h \<le> 1") (auto simp: h1_def Swap_def Let_def Len_def)
  moreover have "Pop h2 = (Some ((h2 ! nat n)\<lparr>Index := - 1\<rparr>), take (nat n) h2)"
    using assms by (simp add: Pop_def Let_def Len_def h2_def h1_def n_def)
  moreover have "heap_Pop h = Pop h2" by (simp add: heap_Pop_def Let_def h2_def h1_def n_def)
  ultimately show ?thesis using n by (simp add: h2_def h1_def n_def)
qed

lemma prio_take: "0 \<le> k \<Longrightarrow> k < int m \<Longrightarrow> prio (take m h) k = prio h k"
  by (simp add: prio_def)

lemma heap_Pop_heap:
  assumes "heap_upto h (Len h)"
  shows "heap_upto (snd (heap_Pop h)) (Len (snd (heap_Pop h)))"
proof (cases "h = []")
  case True
  then show ?thesis by (simp add: heap_Pop_Nil heap_upto_def Len_def)
next
  case False
  define n where "n = Len h - 1"
  define h1 where "h1 = Swap h 0 n"
  have "0 < length h" using False by simp
  then have n: "0 \<le> n" "n < Len h" "nat n = length h - 1" "nat n \<le> length h"
    unfolding n_def Len_def by linarith+
  have pr: "prio h1 k = (if k = n then prio h 0 else if k = 0 then prio h n else prio h k)"
    if "0 \<le> k" "k < Len h" for k
    unfolding h1_def by (rule prio_Swap) (use n that in linarith)+
  have inv: "down_inv h1 0 n"
    unfolding down_inv_def
  proof (intro conjI allI impI)
    fix k assume k: "0 < k \<and> k < n \<and> (k - 1) div 2 \<noteq> 0"
    then have kk: "0 < (k - 1) div 2" "(k - 1) div 2 < n" by linarith+
    have "prio h k \<le> prio h ((k - 1) div 2)" using assms k n unfolding heap_upto_def by simp
    then show "prio h1 k \<le> prio h1 ((k - 1) div 2)"
      using pr[of k] pr[of "(k - 1) div 2"] k kk n by simp
  next
    fix k :: int assume "(0::int) < 0 \<and> 0 < k \<and> k < n \<and> (k - 1) div 2 = 0"
    then show "prio h1 k \<le> prio h1 ((0 - 1) div 2)" by simp
  qed
  have hu: "heap_upto (down h1 0 n) n"
    by (rule down_heap[OF _ _ inv]) (use n in \<open>auto simp: h1_def\<close>)
  have s: "snd (heap_Pop h) = take (nat n) (down h1 0 n)"
    using heap_Pop_eq[OF False] n by (simp add: h1_def n_def)
  have l: "Len (snd (heap_Pop h)) = n" using n(1,4) by (simp add: s Len_def h1_def)
  show ?thesis
    unfolding l unfolding s heap_upto_def
  proof (intro allI impI)
    fix k assume k: "0 < k \<and> k < n"
    then have "0 \<le> k" "k < int (nat n)" "0 \<le> (k - 1) div 2" "(k - 1) div 2 < int (nat n)" by linarith+
    then show "prio (take (nat n) (down h1 0 n)) k \<le> prio (take (nat n) (down h1 0 n)) ((k - 1) div 2)"
      using hu k unfolding heap_upto_def by (simp add: prio_take)
  qed
qed

lemma run_ops_heap: "heap_upto h (Len h) \<Longrightarrow> heap_upto (run_ops os h) (Len (run_ops os h))"
proof (induction os arbitrary: h)
  case Nil
  then show ?case by simp
next
  case (Cons a os)
  then show ?case by (cases a) (simp_all add: heap_Push_heap heap_Pop_heap)
qed

lemma heap_upto_Nil: "heap_upto [] (Len [])"
  by (simp add: heap_upto_def Len_def)

text \<open>
  Claim C8. Where the array has the max-heap property and is not empty, \<open>heap.Pop\<close>
  returns the item at the root, no item of the queue has a larger priority, and the
  queue is one item shorter. So it is for every queue built from the empty one by
  \<open>heap.Push\<close> and \<open>heap.Pop\<close>. On the empty queue \<open>heap.Pop\<close>, like the method
  \<open>Pop\<close>, returns nil and leaves the queue empty.
\<close>

theorem heap_Pop_largest:
  "(max_heap h \<and> h \<noteq> [] \<longrightarrow>
      fst (heap_Pop h) = Some ((h ! 0)\<lparr>Index := - 1\<rparr>) \<and>
      (\<forall>x\<in>set h. sint (Priority x) \<le> sint (Priority (h ! 0))) \<and>
      length (snd (heap_Pop h)) = length h - 1) \<and>
   (run_ops os [] \<noteq> [] \<longrightarrow>
      (\<exists>item. fst (heap_Pop (run_ops os [])) = Some item \<and>
         (\<forall>x\<in>set (run_ops os []). sint (Priority x) \<le> sint (Priority item)))) \<and>
   heap_Pop [] = (None, []) \<and>
   Pop [] = (None, [])"
proof -
  have root: "fst (heap_Pop q) = Some ((q ! 0)\<lparr>Index := - 1\<rparr>) \<and>
      (\<forall>x\<in>set q. sint (Priority x) \<le> sint (Priority (q ! 0))) \<and>
      length (snd (heap_Pop q)) = length q - 1"
    if a: "max_heap q \<and> q \<noteq> []" for q
  proof (intro conjI)
    have hu: "heap_upto q (Len q)" using a by (simp add: max_heap_iff)
    show "fst (heap_Pop q) = Some ((q ! 0)\<lparr>Index := - 1\<rparr>)" using a by (simp add: heap_Pop_eq)
    show "length (snd (heap_Pop q)) = length q - 1" using a by (simp add: heap_Pop_eq)
    show "\<forall>x\<in>set q. sint (Priority x) \<le> sint (Priority (q ! 0))"
    proof
      fix x assume "x \<in> set q"
      then obtain k where k: "k < length q" "x = q ! k" by (auto simp: in_set_conv_nth)
      have "prio q (int k) \<le> prio q 0"
        by (rule heap_root_max[OF hu]) (use k in \<open>auto simp: Len_def\<close>)
      then show "sint (Priority x) \<le> sint (Priority (q ! 0))" using k by (simp add: prio_def)
    qed
  qed
  have built: "max_heap (run_ops os [])"
    unfolding max_heap_iff by (rule run_ops_heap) (rule heap_upto_Nil)
  have "\<exists>item. fst (heap_Pop (run_ops os [])) = Some item \<and>
         (\<forall>x\<in>set (run_ops os []). sint (Priority x) \<le> sint (Priority item))"
    if "run_ops os [] \<noteq> []"
    using root[of "run_ops os []"] built that by auto
  moreover have "Pop [] = (None, [])" by (simp add: Pop_def Len_def)
  ultimately show ?thesis using root[of h] heap_Pop_Nil by blast
qed

theorem heap_Pop_largest_witness:
  "max_heap [\<lparr>Value = ''a'', Priority = 9, Index = 0\<rparr>,
             \<lparr>Value = ''b'', Priority = 3, Index = 1\<rparr>,
             \<lparr>Value = ''c'', Priority = 5, Index = 2\<rparr>] \<and>
   fst (heap_Pop [\<lparr>Value = ''a'', Priority = 9, Index = 0\<rparr>,
                  \<lparr>Value = ''b'', Priority = 3, Index = 1\<rparr>,
                  \<lparr>Value = ''c'', Priority = 5, Index = 2\<rparr>])
     = Some \<lparr>Value = ''a'', Priority = 9, Index = - 1\<rparr> \<and>
   length (snd (heap_Pop [\<lparr>Value = ''a'', Priority = 9, Index = 0\<rparr>,
                          \<lparr>Value = ''b'', Priority = 3, Index = 1\<rparr>,
                          \<lparr>Value = ''c'', Priority = 5, Index = 2\<rparr>])) = 2 \<and>
   run_ops [OpPush \<lparr>Value = ''b'', Priority = 3, Index = 0\<rparr>,
            OpPush \<lparr>Value = ''a'', Priority = 9, Index = 0\<rparr>] [] \<noteq> [] \<and>
   (\<exists>item. fst (heap_Pop (run_ops [OpPush \<lparr>Value = ''b'', Priority = 3, Index = 0\<rparr>,
                                   OpPush \<lparr>Value = ''a'', Priority = 9, Index = 0\<rparr>] [])) = Some item)"
proof -
  define h0 where "h0 = [\<lparr>Value = ''a'', Priority = 9 :: 64 word, Index = 0\<rparr>,
                         \<lparr>Value = ''b'', Priority = 3, Index = 1\<rparr>,
                         \<lparr>Value = ''c'', Priority = 5, Index = 2\<rparr>]"
  define os0 where "os0 = [OpPush \<lparr>Value = ''b'', Priority = 3 :: 64 word, Index = 0\<rparr>,
                           OpPush \<lparr>Value = ''a'', Priority = 9, Index = 0\<rparr>]"
  have p: "max_heap h0 \<and> h0 \<noteq> []"
    unfolding h0_def by code_simp
  have n: "run_ops os0 [] \<noteq> []"
    unfolding os0_def by code_simp
  have "fst (heap_Pop h0) = Some ((h0 ! 0)\<lparr>Index := - 1\<rparr>) \<and>
        length (snd (heap_Pop h0)) = length h0 - 1 \<and>
        (\<exists>item. fst (heap_Pop (run_ops os0 [])) = Some item)"
    using heap_Pop_largest[of h0 os0] p n by blast
  then show ?thesis using p n unfolding h0_def os0_def by simp
qed

text \<open>
  Claim C9. Every sequence of \<open>heap.Push\<close> and \<open>heap.Pop\<close> calls, run from the empty
  queue, leaves an array with the max-heap property: every node is at least as large as
  each of its children.
\<close>

theorem heap_property_kept: "max_heap (run_ops os [])"
  unfolding max_heap_iff by (rule run_ops_heap) (rule heap_upto_Nil)

theorem heap_property_kept_witness:
  "max_heap (run_ops [OpPush \<lparr>Value = ''a'', Priority = 3, Index = 0\<rparr>,
                      OpPush \<lparr>Value = ''b'', Priority = 7, Index = 0\<rparr>,
                      OpPush \<lparr>Value = ''c'', Priority = 5, Index = 0\<rparr>,
                      OpPush \<lparr>Value = ''d'', Priority = 9, Index = 0\<rparr>,
                      OpPop] []) \<and>
   map (\<lambda>x. sint (Priority x))
     (run_ops [OpPush \<lparr>Value = ''a'', Priority = 3, Index = 0\<rparr>,
               OpPush \<lparr>Value = ''b'', Priority = 7, Index = 0\<rparr>,
               OpPush \<lparr>Value = ''c'', Priority = 5, Index = 0\<rparr>,
               OpPush \<lparr>Value = ''d'', Priority = 9, Index = 0\<rparr>,
               OpPop] []) = [7, 3, 5]"
proof -
  have a: "max_heap (run_ops [OpPush \<lparr>Value = ''a'', Priority = 3, Index = 0\<rparr>,
                      OpPush \<lparr>Value = ''b'', Priority = 7, Index = 0\<rparr>,
                      OpPush \<lparr>Value = ''c'', Priority = 5, Index = 0\<rparr>,
                      OpPush \<lparr>Value = ''d'', Priority = 9, Index = 0\<rparr>,
                      OpPop] [])"
    by (rule heap_property_kept)
  have b: "map (\<lambda>x. sint (Priority x))
     (run_ops [OpPush \<lparr>Value = ''a'', Priority = 3, Index = 0\<rparr>,
               OpPush \<lparr>Value = ''b'', Priority = 7, Index = 0\<rparr>,
               OpPush \<lparr>Value = ''c'', Priority = 5, Index = 0\<rparr>,
               OpPush \<lparr>Value = ''d'', Priority = 9, Index = 0\<rparr>,
               OpPop] []) = [7, 3, 5]"
    by code_simp
  show ?thesis using a b by blast
qed

section \<open>The shard keeper\<close>

text \<open>
  Claim C1, as stated, fails: on a modify event whose \<open>BridgeLeaseID\<close> is 7 while the
  keeper holds the bridge lease 5, \<open>acquireGuardLease\<close> returns the error "bridge lease
  not match" before the deferred function is registered, and \<open>bridgeLease\<close> is still
  lease 5.
\<close>

theorem acquireGuardLease_bridge_counterexample:
  "\<not> IsCreate ex_modify \<and>
   fst (acquireGuardLease (\<lambda>l. ''lease'') (ex_keeper (\<lambda>n. None)) ex_modify (ex_guard 7))
     = Some (Err ''bridge lease not match'') \<and>
   \<not> EqualTo
       (bridgeLease (snd (acquireGuardLease (\<lambda>l. ''lease'') (ex_keeper (\<lambda>n. None)) ex_modify (ex_guard 7))))
       NoLease"
  by (simp add: acquireGuardLease_def IsCreate_def EqualTo_def NoLease_def ex_keeper_def
      ex_modify_def ex_guard_def)

text \<open>
  Claim C1, amended. On a guard event that is not a create, every return of
  \<open>acquireGuardLease\<close> but the rejection leaves \<open>bridgeLease\<close> equal (by id) to
  \<open>NoLease\<close>: it was so already, or the deferred function set it, whether the storage
  calls and the Put failed or not. The rejection returns the error and leaves the
  keeper, \<open>bridgeLease\<close> included, as it was.
\<close>

theorem acquireGuardLease_bridge_on_exit:
  assumes "\<not> IsCreate ev"
  shows "(\<not> bridge_mismatch sk lease \<longrightarrow>
            EqualTo (bridgeLease (snd (acquireGuardLease json sk ev lease))) NoLease) \<and>
         (\<not> EqualTo (bridgeLease sk) NoLease \<and> \<not> bridge_mismatch sk lease \<longrightarrow>
            bridgeLease (snd (acquireGuardLease json sk ev lease)) = NoLease) \<and>
         (bridge_mismatch sk lease \<longrightarrow>
            acquireGuardLease json sk ev lease = (Some (Err ''bridge lease not match''), sk))"
  using assms
  by (auto simp: acquireGuardLease_def bridge_mismatch_def Let_def EqualTo_def split: option.splits)

theorem acquireGuardLease_bridge_on_exit_witness:
  "\<not> IsCreate ex_modify \<and>
   \<not> bridge_mismatch (ex_keeper (\<lambda>n. None)) (ex_guard 5) \<and>
   bridgeLease (snd (acquireGuardLease (\<lambda>l. ''lease'') (ex_keeper (\<lambda>n. None)) ex_modify (ex_guard 5)))
     = NoLease \<and>
   bridge_mismatch (ex_keeper (\<lambda>n. None)) (ex_guard 7) \<and>
   acquireGuardLease (\<lambda>l. ''lease'') (ex_keeper (\<lambda>n. None)) ex_modify (ex_guard 7)
     = (Some (Err ''bridge lease not match''), ex_keeper (\<lambda>n. None))"
proof -
  have c: "\<not> IsCreate ex_modify" by (simp add: IsCreate_def ex_modify_def)
  have a: "\<not> EqualTo (bridgeLease (ex_keeper (\<lambda>n. None))) NoLease \<and>
           \<not> bridge_mismatch (ex_keeper (\<lambda>n. None)) (ex_guard 5)"
    by (simp add: bridge_mismatch_def EqualTo_def NoLease_def ex_keeper_def ex_guard_def)
  have b: "bridge_mismatch (ex_keeper (\<lambda>n. None)) (ex_guard 7)"
    by (simp add: bridge_mismatch_def EqualTo_def NoLease_def ex_keeper_def ex_guard_def)
  show ?thesis
    using acquireGuardLease_bridge_on_exit[OF c, of "ex_keeper (\<lambda>n. None)" "ex_guard 5" "\<lambda>l. ''lease''"]
      acquireGuardLease_bridge_on_exit[OF c, of "ex_keeper (\<lambda>n. None)" "ex_guard 7" "\<lambda>l. ''lease''"]
      a b c
    by blast
qed

text \<open>
  Claim C10. When the checks pass and the two storage calls succeed, a failing Put of
  the session key changes nothing but the client: \<open>acquireGuardLease\<close> returns nil,
  \<open>guardLease\<close> is the new lease, \<open>bridgeLease\<close> is \<open>NoLease\<close>, the log is the one
  left by \<open>MigrateLease\<close> and \<open>DropByLease\<close>, the store holds the keys it held before
  (no session key is written), and every field but the client is what a run with a
  store that does not fail gives.
\<close>

theorem acquireGuardLease_Put_error_ignored:
  assumes "\<not> IsCreate ev"
    and "\<not> EqualTo (bridgeLease sk) NoLease"
    and "\<not> bridge_mismatch sk lease"
    and "fst (storage_MigrateLease (storage sk) (ID (bridgeLease sk)) (ID (sl_Lease lease))) = None"
    and "fst (storage_DropByLease
               (snd (storage_MigrateLease (storage sk) (ID (bridgeLease sk)) (ID (sl_Lease lease))))
               True (ID (sl_Lease lease))) = None"
    and "fault (Client sk) (length (calls (Client sk))) = Some e"
  shows "fst (acquireGuardLease json sk ev lease) = None \<and>
         guardLease (snd (acquireGuardLease json sk ev lease)) = sl_Lease lease \<and>
         bridgeLease (snd (acquireGuardLease json sk ev lease)) = NoLease \<and>
         storage (snd (acquireGuardLease json sk ev lease)) =
           snd (storage_DropByLease
                 (snd (storage_MigrateLease (storage sk) (ID (bridgeLease sk)) (ID (sl_Lease lease))))
                 True (ID (sl_Lease lease))) \<and>
         kv (Client (snd (acquireGuardLease json sk ev lease))) = kv (Client sk) \<and>
         (snd (acquireGuardLease json sk ev lease))\<lparr>Client := c\<rparr> =
           (snd (acquireGuardLease json (sk\<lparr>Client := (Client sk)\<lparr>fault := (\<lambda>n. None)\<rparr>\<rparr>) ev lease))
             \<lparr>Client := c\<rparr>"
  using assms
  by (auto simp: acquireGuardLease_def bridge_mismatch_def Let_def etcd_Put_def)

theorem acquireGuardLease_Put_error_ignored_witness:
  "fst (acquireGuardLease (\<lambda>l. ''lease'') (ex_keeper (\<lambda>n. Some (Err ''store down''))) ex_modify (ex_guard 5))
     = None \<and>
   guardLease (snd (acquireGuardLease (\<lambda>l. ''lease'') (ex_keeper (\<lambda>n. Some (Err ''store down''))) ex_modify (ex_guard 5)))
     = \<lparr>ID = 9, Expire = 0\<rparr> \<and>
   log (storage (snd (acquireGuardLease (\<lambda>l. ''lease'') (ex_keeper (\<lambda>n. Some (Err ''store down''))) ex_modify (ex_guard 5))))
     = [ex_record ''s1'' 9 True False, ex_record ''s2'' 3 True True, ex_record ''s3'' 9 False False] \<and>
   kv (Client (snd (acquireGuardLease (\<lambda>l. ''lease'') (ex_keeper (\<lambda>n. Some (Err ''store down''))) ex_modify (ex_guard 5))))
     = Map.empty"
proof -
  define sk where "sk = ex_keeper (\<lambda>n. Some (Err ''store down''))"
  have c: "\<not> IsCreate ex_modify" by (simp add: IsCreate_def ex_modify_def)
  have a: "\<not> EqualTo (bridgeLease sk) NoLease" "\<not> bridge_mismatch sk (ex_guard 5)"
    by (simp_all add: sk_def bridge_mismatch_def EqualTo_def NoLease_def ex_keeper_def ex_guard_def)
  have m: "fst (storage_MigrateLease (storage sk) (ID (bridgeLease sk)) (ID (sl_Lease (ex_guard 5)))) = None"
    by (simp add: sk_def storage_MigrateLease_def storage_write_def ex_keeper_def)
  have d: "fst (storage_DropByLease
               (snd (storage_MigrateLease (storage sk) (ID (bridgeLease sk)) (ID (sl_Lease (ex_guard 5)))))
               True (ID (sl_Lease (ex_guard 5)))) = None"
    by (simp add: sk_def storage_MigrateLease_def storage_DropByLease_def storage_write_def ex_keeper_def)
  have f: "fault (Client sk) (length (calls (Client sk))) = Some (Err ''store down'')"
    by (simp add: sk_def ex_keeper_def)
  have l: "log (snd (storage_DropByLease
                 (snd (storage_MigrateLease (storage sk) (ID (bridgeLease sk)) (ID (sl_Lease (ex_guard 5)))))
                 True (ID (sl_Lease (ex_guard 5)))))
            = [ex_record ''s1'' 9 True False, ex_record ''s2'' 3 True True, ex_record ''s3'' 9 False False]"
    by (simp add: sk_def storage_MigrateLease_def storage_DropByLease_def storage_write_def
        ex_keeper_def ex_guard_def ex_record_def lease_id_def set_lease_id_def)
  have k: "kv (Client sk) = Map.empty" "sl_Lease (ex_guard 5) = \<lparr>ID = 9, Expire = 0\<rparr>"
    by (simp_all add: sk_def ex_keeper_def ex_guard_def)
  show ?thesis
    using acquireGuardLease_Put_error_ignored[OF c a m d f, of "\<lambda>l. ''lease''" "Client sk"] l k
    unfolding sk_def by simp
qed

text \<open>
  Claim C6. \<open>Add\<close> with a spec whose lease differs (by id) from \<open>guardLease\<close> returns
  the error "lease mismatch" and the keeper as it was: the log is unchanged and the
  storage has counted no call. With an equal lease the result is that of
  \<open>storage.Add\<close> on the spec.
\<close>

theorem Add_lease_check:
  "(\<not> EqualTo (sp_Lease spec) (guardLease sk) \<longrightarrow>
      Add sk ident spec = (Some (Err ''lease mismatch''), sk)) \<and>
   (EqualTo (sp_Lease spec) (guardLease sk) \<longrightarrow>
      Add sk ident spec =
        (fst (storage_Add (storage sk) spec), sk\<lparr>storage := snd (storage_Add (storage sk) spec)\<rparr>))"
  by (simp add: Add_def Let_def)

theorem Add_lease_check_witness:
  "\<not> EqualTo (sp_Lease (Spec (ex_record ''s4'' 9 False False))) (guardLease (ex_keeper (\<lambda>n. None))) \<and>
   Add (ex_keeper (\<lambda>n. None)) ''s4'' (Spec (ex_record ''s4'' 9 False False))
     = (Some (Err ''lease mismatch''), ex_keeper (\<lambda>n. None)) \<and>
   EqualTo (sp_Lease (Spec (ex_record ''s4'' 3 False False))) (guardLease (ex_keeper (\<lambda>n. None))) \<and>
   fst (Add (ex_keeper (\<lambda>n. None)) ''s4'' (Spec (ex_record ''s4'' 3 False False))) = None \<and>
   log (storage (snd (Add (ex_keeper (\<lambda>n. None)) ''s4'' (Spec (ex_record ''s4'' 3 False False)))))
     = [ex_record ''s1'' 5 True False, ex_record ''s2'' 3 True False,
        ex_record ''s3'' 9 False False, ex_record ''s4'' 3 False False]"
proof -
  have a: "\<not> EqualTo (sp_Lease (Spec (ex_record ''s4'' 9 False False))) (guardLease (ex_keeper (\<lambda>n. None)))"
    by (simp add: EqualTo_def ex_record_def ex_keeper_def)
  have b: "EqualTo (sp_Lease (Spec (ex_record ''s4'' 3 False False))) (guardLease (ex_keeper (\<lambda>n. None)))"
    by (simp add: EqualTo_def ex_record_def ex_keeper_def)
  have s: "storage_Add (storage (ex_keeper (\<lambda>n. None))) (Spec (ex_record ''s4'' 3 False False))
           = (None, \<lparr>log = [ex_record ''s1'' 5 True False, ex_record ''s2'' 3 True False,
                             ex_record ''s3'' 9 False False, ex_record ''s4'' 3 False False],
                     st_ops = 1, st_fault = (\<lambda>n. None)\<rparr>)"
    by (simp add: storage_Add_def storage_write_def ex_keeper_def ex_record_def)
  show ?thesis
    using Add_lease_check[of "Spec (ex_record ''s4'' 9 False False)" "ex_keeper (\<lambda>n. None)" "''s4''"]
      Add_lease_check[of "Spec (ex_record ''s4'' 3 False False)" "ex_keeper (\<lambda>n. None)" "''s4''"]
      a b s
    by simp
qed


section \<open>sync\<close>

lemma set_AList_update: "set (AList.update k v al) \<subseteq> insert (k, v) (set al)"
  by (induction al) auto

lemma lease_ok_Disp [simp]: "lease_ok sk (dv\<lparr>Disp := b\<rparr>) = lease_ok sk dv"
  by (simp add: lease_ok_def)

lemma visit_inv:
  assumes "drop_succeeds (AppShardImpl sk)" and "sync_inv sk seen acc"
  shows "sync_inv sk (seen @ [dv]) (snd (visit sk acc dv))"
proof -
  obtain ds us app where acc: "acc = (ds, us, app)" by (cases acc)
  have r: "Drop_reply app = Drop_reply (AppShardImpl sk)"
    and d: "\<forall>x\<in>set seen. \<not> lease_ok sk x \<longrightarrow> Id (Spec x) \<in> set ds"
    and u: "\<forall>p\<in>set us. lease_ok sk (snd p)"
    using assms(2) by (auto simp: sync_inv_def acc)
  have ok: "Drop_reply app n s = None \<or> Drop_reply app n s = Some ErrNotExist" for n s
    using assms(1) r by (simp add: drop_succeeds_def)
  have dropped: "sync_inv sk (seen @ [dv]) (snd (dropFn acc dv))"
    using ok[of "length (app_calls app)" "Id (Spec dv)"] r d u
    by (auto simp: sync_inv_def acc dropFn_def app_Drop_def Let_def)
  show ?thesis
  proof (cases "lease_ok sk dv")
    case False
    then have "visit sk acc dv = dropFn acc dv" by (simp add: visit_def lease_ok_def)
    then show ?thesis using dropped by simp
  next
    case True
    have added: "sync_inv sk (seen @ [dv]) (snd (addFn acc dv))"
      using r d u True set_AList_update[of "Id (Spec dv)" "dv\<lparr>Disp := True\<rparr>" us]
      by (auto simp: sync_inv_def acc addFn_def app_Add_def Let_def)
    have kept: "sync_inv sk (seen @ [dv]) acc"
      using r d u True by (auto simp: sync_inv_def acc)
    have "visit sk acc dv = (None, acc) \<or> visit sk acc dv = dropFn acc dv \<or> visit sk acc dv = addFn acc dv"
      by (simp add: visit_def)
    then show ?thesis using dropped added kept by auto
  qed
qed

lemma foldl_visit_inv:
  assumes "drop_succeeds (AppShardImpl sk)"
  shows "sync_inv sk seen acc \<Longrightarrow>
         sync_inv sk (seen @ l) (foldl (\<lambda>a dv. snd (visit sk a dv)) acc l)"
proof (induction l arbitrary: seen acc)
  case Nil
  then show ?case by simp
next
  case (Cons dv l)
  have "sync_inv sk ((seen @ [dv]) @ l) (foldl (\<lambda>a dv. snd (visit sk a dv)) (snd (visit sk acc dv)) l)"
    by (rule Cons.IH) (rule visit_inv[OF assms Cons.prems])
  then show ?case by simp
qed

lemma ForEach_inv:
  assumes "drop_succeeds (AppShardImpl sk)"
  shows "sync_inv sk (log (storage sk)) (storage_ForEach (storage sk) (visit sk) ([], [], AppShardImpl sk))"
  using foldl_visit_inv[OF assms, of "[]" "([], [], AppShardImpl sk)" "log (storage sk)"]
  by (simp add: storage_ForEach_def sync_inv_def)

lemma remove_loop_log:
  "remove_loop st ids = (None, st') \<Longrightarrow>
   log st' = filter (\<lambda>dv. Id (Spec dv) \<notin> set ids) (log st)"
proof (induction ids arbitrary: st)
  case Nil
  then show ?case by simp
next
  case (Cons a ids)
  obtain e st1 where r: "storage_Remove st a = (e, st1)" by (cases "storage_Remove st a")
  with Cons.prems have e: "e = None" and rest: "remove_loop st1 ids = (None, st')"
    by (auto split: option.splits)
  have "log st1 = filter (\<lambda>dv. Id (Spec dv) \<noteq> a) (log st)"
    using r e by (auto simp: storage_Remove_def storage_write_def split: option.splits)
  then show ?case using Cons.IH[OF rest] by (simp add: conj_commute)
qed

lemma put_loop_log:
  "put_loop st us = (None, st') \<Longrightarrow>
   set (log st') \<subseteq> set (log st) \<union> (\<lambda>p. (snd p)\<lparr>Disp := True\<rparr>) ` set us"
proof (induction us arbitrary: st)
  case Nil
  then show ?case by simp
next
  case (Cons p us)
  obtain k dv where p: "p = (k, dv)" by (cases p)
  obtain e st1 where r: "storage_Put st k (dv\<lparr>Disp := True\<rparr>) = (e, st1)"
    by (cases "storage_Put st k (dv\<lparr>Disp := True\<rparr>)")
  with Cons.prems p have e: "e = None" and rest: "put_loop st1 us = (None, st')"
    by (auto split: option.splits)
  have "set (log st1) \<subseteq> insert (dv\<lparr>Disp := True\<rparr>) (set (log st))"
    using r e by (auto simp: storage_Put_def storage_write_def split: option.splits)
  then show ?case using Cons.IH[OF rest] p by auto
qed

text \<open>
  Claim C2. When the application's Drop callback answers nil or \<open>ErrNotExist\<close> to
  every call and \<open>sync\<close> returns nil, every record left in the log has the lease (by
  id) of the keeper's guard or of its bridge.
\<close>

theorem sync_lease_consistency:
  assumes "drop_succeeds (AppShardImpl sk)" and "fst (sync sk) = None"
  shows "\<forall>dv\<in>set (log (storage (snd (sync sk)))). lease_ok (snd (sync sk)) dv"
proof -
  obtain ds us app where f: "storage_ForEach (storage sk) (visit sk) ([], [], AppShardImpl sk) = (ds, us, app)"
    by (cases "storage_ForEach (storage sk) (visit sk) ([], [], AppShardImpl sk)")
  have inv: "sync_inv sk (log (storage sk)) (ds, us, app)"
    using ForEach_inv[OF assms(1)] f by simp
  obtain e1 st1 where r: "remove_loop (storage sk) ds = (e1, st1)" by (cases "remove_loop (storage sk) ds")
  obtain e2 st2 where p: "put_loop st1 us = (e2, st2)" by (cases "put_loop st1 us")
  have e: "e1 = None" "e2 = None"
    using assms(2) f r p by (auto simp: sync_def Let_def split: option.splits)
  have s: "snd (sync sk) = sk\<lparr>AppShardImpl := app, storage := st2, initialized := True\<rparr>"
    using f r p e by (auto simp: sync_def Let_def)
  have ok: "lease_ok (snd (sync sk)) dv = lease_ok sk dv" for dv
    by (simp add: s lease_ok_def)
  have l1: "log st1 = filter (\<lambda>dv. Id (Spec dv) \<notin> set ds) (log (storage sk))"
    using remove_loop_log r e by simp
  have l2: "set (log st2) \<subseteq> set (log st1) \<union> (\<lambda>p. (snd p)\<lparr>Disp := True\<rparr>) ` set us"
    using put_loop_log p e by simp
  show ?thesis
  proof
    fix dv assume "dv \<in> set (log (storage (snd (sync sk))))"
    then have "dv \<in> set (log st2)" by (simp add: s)
    then consider "dv \<in> set (log st1)" | q where "q \<in> set us" "dv = (snd q)\<lparr>Disp := True\<rparr>"
      using l2 by auto
    then have "lease_ok sk dv"
    proof cases
      case 1
      then have "dv \<in> set (log (storage sk))" "Id (Spec dv) \<notin> set ds" by (simp_all add: l1)
      then show ?thesis using inv by (auto simp: sync_inv_def)
    next
      case 2
      then show ?thesis using inv by (auto simp: sync_inv_def)
    qed
    then show "lease_ok (snd (sync sk)) dv" by (simp add: ok)
  qed
qed


theorem sync_lease_consistency_witness:
  "drop_succeeds (AppShardImpl ((ex_keeper (\<lambda>n. None))\<lparr>initialized := False\<rparr>)) \<and>
   fst (sync ((ex_keeper (\<lambda>n. None))\<lparr>initialized := False\<rparr>)) = None \<and>
   log (storage (snd (sync ((ex_keeper (\<lambda>n. None))\<lparr>initialized := False\<rparr>))))
     = [ex_record ''s1'' 5 True False, ex_record ''s2'' 3 True False] \<and>
   app_calls (AppShardImpl (snd (sync ((ex_keeper (\<lambda>n. None))\<lparr>initialized := False\<rparr>))))
     = [AppAdd ''s1'', AppAdd ''s2'', AppDrop ''s3''] \<and>
   lease_ok (snd (sync ((ex_keeper (\<lambda>n. None))\<lparr>initialized := False\<rparr>)))
     (ex_record ''s1'' 5 True False)"
proof -
  define sk where "sk = (ex_keeper (\<lambda>n. None))\<lparr>initialized := False\<rparr>"
  have a: "drop_succeeds (AppShardImpl sk)"
    by (simp add: sk_def drop_succeeds_def ex_keeper_def)
  have f: "storage_ForEach (storage sk) (visit sk) ([], [], AppShardImpl sk) =
             ([''s3''],
              [(''s1'', ex_record ''s1'' 5 True False), (''s2'', ex_record ''s2'' 3 True False)],
              (AppShardImpl sk)\<lparr>app_calls := [AppAdd ''s1'', AppAdd ''s2'', AppDrop ''s3'']\<rparr>)"
    by (simp add: sk_def ex_keeper_def ex_record_def storage_ForEach_def visit_def dropFn_def
        addFn_def app_Add_def app_Drop_def EqualTo_def Let_def)
  have r: "remove_loop (storage sk) [''s3''] =
             (None, (storage sk)\<lparr>st_ops := Suc 0,
                      log := [ex_record ''s1'' 5 True False, ex_record ''s2'' 3 True False]\<rparr>)"
    by (simp add: sk_def ex_keeper_def ex_record_def storage_Remove_def storage_write_def)
  have p: "put_loop ((storage sk)\<lparr>st_ops := Suc 0,
                      log := [ex_record ''s1'' 5 True False, ex_record ''s2'' 3 True False]\<rparr>)
             [(''s1'', ex_record ''s1'' 5 True False), (''s2'', ex_record ''s2'' 3 True False)] =
             (None, (storage sk)\<lparr>st_ops := 3,
                      log := [ex_record ''s1'' 5 True False, ex_record ''s2'' 3 True False]\<rparr>)"
    by (simp add: sk_def ex_keeper_def ex_record_def storage_Put_def storage_write_def)
  have i: "\<not> initialized sk" by (simp add: sk_def)
  have s: "sync sk =
             (None, sk\<lparr>AppShardImpl := (AppShardImpl sk)\<lparr>app_calls := [AppAdd ''s1'', AppAdd ''s2'', AppDrop ''s3'']\<rparr>,
                       storage := (storage sk)\<lparr>st_ops := 3,
                          log := [ex_record ''s1'' 5 True False, ex_record ''s2'' 3 True False]\<rparr>,
                       initialized := True\<rparr>)"
    unfolding sync_def f by (simp add: r p i Let_def del: remove_loop.simps put_loop.simps)
  have b: "fst (sync sk) = None" by (simp add: s)
  have m: "ex_record ''s1'' 5 True False \<in> set (log (storage (snd (sync sk))))" by (simp add: s)
  have "lease_ok (snd (sync sk)) (ex_record ''s1'' 5 True False)"
    using sync_lease_consistency[OF a b] m by blast
  then show ?thesis using a b s unfolding sk_def by simp
qed

section \<open>The event queues\<close>

lemma evLoop_body_parent: "parent_service (fst (evLoop_body s ev)) = parent_service (fst s)"
  by (simp add: evLoop_body_def Let_def)

lemma evLoop_body_calls:
  "calls (snd (evLoop_body s ev)) =
     calls (snd s) @ [CallCompareAndSwap (EtcdPathAppShardTask (parent_service (fst s))) [] (ev_Value ev)]"
  by (simp add: evLoop_body_def CompareAndSwap_def Let_def split: option.splits)

lemma evLoop_calls:
  "calls (snd (evLoop s evs)) =
     calls (snd s) @
       map (\<lambda>ev. CallCompareAndSwap (EtcdPathAppShardTask (parent_service (fst s))) [] (ev_Value ev)) evs"
  by (induction evs arbitrary: s) (simp_all add: evLoop_body_calls evLoop_body_parent)

text \<open>
  Claim C3, as stated, fails: for an event of the service "app" on a queue whose parent
  container has the service "sm", the one compare-and-swap is on the task key of "sm",
  and none is attempted on the task key of "app".
\<close>

theorem evLoop_task_key_counterexample:
  "CallCompareAndSwap (EtcdPathAppShardTask (Service ex_event)) [] (ev_Value ex_event)
     \<notin> set (calls (snd (evLoop_body (ex_queue [] {''app''}, ex_etcd (\<lambda>n. None)) ex_event))) \<and>
   calls (snd (evLoop_body (ex_queue [] {''app''}, ex_etcd (\<lambda>n. None)) ex_event))
     = [CallCompareAndSwap ''task/sm'' [] ''moves'']"
  by (simp add: evLoop_body_calls ex_queue_def ex_etcd_def ex_event_def EtcdPathAppShardTask_def)

text \<open>
  Claim C3, amended. For every event that \<open>evLoop\<close> receives, exactly one
  compare-and-swap is attempted, from the empty string to the event's value, on the task
  key of the service of the queue's parent container (the same key for every event),
  and after it, whatever the store answered, the event's service is no longer in the
  duplicate-suppression set. Over a run of the loop the requests to the store are these
  compare-and-swaps, one per event, in order.
\<close>

theorem evLoop_compare_and_swap:
  "calls (snd (evLoop_body (eq, c) ev)) =
     calls c @ [CallCompareAndSwap (EtcdPathAppShardTask (parent_service eq)) [] (ev_Value ev)] \<and>
   serviceBlk (fst (evLoop_body (eq, c) ev)) = serviceBlk eq - {Service ev} \<and>
   calls (snd (evLoop (eq, c) evs)) =
     calls c @ map (\<lambda>ev. CallCompareAndSwap (EtcdPathAppShardTask (parent_service eq)) [] (ev_Value ev)) evs"
  by (simp add: evLoop_body_calls evLoop_calls) (simp add: evLoop_body_def Let_def)

text \<open>
  \<open>push\<close> of package smserver: a call that starts with the mutex free and is not left
  blocked on a channel makes one Lock and one Unlock, also when the duplicate check
  trips, when unmarshalling fails and when it panics.
\<close>

lemma chan_send_mu: "mu (snd (chan_send eq ev)) = mu eq"
  by (simp add: chan_send_def Let_def)

lemma chan_send_outcome: "fst (chan_send eq ev) = Returned \<or> fst (chan_send eq ev) = Blocked"
  by (simp add: chan_send_def Let_def)

lemma push_body_mu: "mu (snd (push_body unmarshal now eq item checkDup)) = mu eq"
  by (auto simp: push_body_def Let_def chan_send_mu split: option.splits)

lemma push_body_outcome: "fst (push_body unmarshal now eq item checkDup) \<noteq> Fatal m"
  by (auto simp: push_body_def chan_send_def Let_def split: option.splits)

lemma push_unlocks_once:
  assumes "\<not> held (mu eq)"
    and "fst (push unmarshal now eq item checkDup) \<noteq> Blocked"
  shows "ops (mu (snd (push unmarshal now eq item checkDup))) = ops (mu eq) @ [Lock, Unlock] \<and>
         \<not> held (mu (snd (push unmarshal now eq item checkDup))) \<and>
         (\<forall>m. fst (push unmarshal now eq item checkDup) \<noteq> Fatal m)"
proof -
  define r where "r = push_body unmarshal now (eq\<lparr>mu := Mutex_Lock (mu eq)\<rparr>) item checkDup"
  have m: "mu (snd r) = Mutex_Lock (mu eq)" by (simp add: r_def push_body_mu)
  have p: "push unmarshal now eq item checkDup = defer_Unlock r"
    using assms(1) by (simp add: push_def r_def)
  have nb: "fst r \<noteq> Blocked" using assms(2) unfolding p by (auto simp: defer_Unlock_def split: outcome.splits)
  have nf: "fst r \<noteq> Fatal m" for m unfolding r_def by (rule push_body_outcome)
  show ?thesis
    unfolding p using m nb nf
    by (cases "fst r") (auto simp: defer_Unlock_def eq_Unlock_def Mutex_Unlock_def Mutex_Lock_def Let_def)
qed

text \<open>
  Claim C7 fails for \<open>push\<close> of package server. With the service of the event already in
  \<open>curEvList\<close> and \<open>checkDup\<close> set, the call unlocks the mutex itself and the deferred
  Unlock runs on the mutex that is no longer held: two Unlock calls, the second a fatal
  error of the runtime.
\<close>

theorem server_push_unlocks_twice:
  "fst (server_push ex_server_decode 10 (ex_server_queue (Some {''app''})) (ex_item ''load'' 5 0) True)
     = Fatal ''sync: unlock of unlocked mutex'' \<and>
   ops (s_mu (snd (server_push ex_server_decode 10 (ex_server_queue (Some {''app''})) (ex_item ''load'' 5 0) True)))
     = [Lock, Unlock, Unlock] \<and>
   unlocks (s_mu (snd (server_push ex_server_decode 10 (ex_server_queue (Some {''app''})) (ex_item ''load'' 5 0) True)))
     = 2"
  by (simp add: server_push_def server_push_body_def server_defer_Unlock_def server_Unlock_def
      Mutex_Lock_def Mutex_Unlock_def unlocks_def ex_server_queue_def ex_server_decode_def
      ex_item_def Let_def)

text \<open>
  Claim C4 fails on the code. Two load events were pushed at time 0, due at 100 and at 5,
  and the clock reads 10. The tick pops the item of priority 100, which is later than
  now, pushes it back and returns: the item of priority 5, due since 5, is still in
  the queue and nothing was sent to the channel of its service.
\<close>

theorem tryPopAndPush_leaves_due_item:
  "map (\<lambda>x. sint (Priority x)) (pq ex_deferred) = [100, 5] \<and>
   fst (tryPopAndPush ex_decode 10 ex_deferred) = Returned \<and>
   map (\<lambda>x. sint (Priority x)) (pq (snd (tryPopAndPush ex_decode 10 ex_deferred))) = [100, 5] \<and>
   serviceEvChan (snd (tryPopAndPush ex_decode 10 ex_deferred)) ''app2'' = Some []"
  by code_simp

section \<open>The move executor\<close>

text \<open>
  Claim C5. \<open>move\<close> returns an error exactly when unmarshalling the payload fails, and
  then the client is as it was (no request was sent). With a payload that unmarshals,
  \<open>move\<close> returns nil whatever the requests gave, also when \<open>succ\<close> is false after
  the retry.
\<close>

theorem move_error_iff:
  "(fst (move unmarshal hc val) \<noteq> None) = (\<exists>err. unmarshal val = Inl err) \<and>
   ((\<exists>err. unmarshal val = Inl err) \<longrightarrow> snd (snd (move unmarshal hc val)) = hc) \<and>
   (\<forall>mal. unmarshal val = Inr mal \<longrightarrow> fst (move unmarshal hc val) = None)"
  by (cases "unmarshal val") (simp_all add: move_def Let_def)

theorem move_error_iff_witness:
  "ex_unmarshal ''good'' = Inr [ex_action] \<and>
   fst (move ex_unmarshal (ex_http 500) ''good'') = None \<and>
   fst (snd (move ex_unmarshal (ex_http 500) ''good'')) = False \<and>
   map fst (requests (snd (snd (move ex_unmarshal (ex_http 500) ''good''))))
     = [''http://e1/sm/admin/drop-shard'', ''http://e1/sm/admin/drop-shard''] \<and>
   ex_unmarshal ''bad'' = Inl (Err ''invalid character'') \<and>
   fst (move ex_unmarshal (ex_http 500) ''bad'') = Some (Err ''invalid character'') \<and>
   snd (snd (move ex_unmarshal (ex_http 500) ''bad'')) = ex_http 500"
proof -
  have g: "ex_unmarshal ''good'' = Inr [ex_action]" by (simp add: ex_unmarshal_def)
  have b: "ex_unmarshal ''bad'' = Inl (Err ''invalid character'')" by (simp add: ex_unmarshal_def)
  have s: "fst (snd (move ex_unmarshal (ex_http 500) ''good'')) = False"
    by code_simp
  have q: "map fst (requests (snd (snd (move ex_unmarshal (ex_http 500) ''good''))))
             = [''http://e1/sm/admin/drop-shard'', ''http://e1/sm/admin/drop-shard'']"
    by code_simp
  have e: "fst (move ex_unmarshal (ex_http 500) ''bad'') = Some (Err ''invalid character'')"
    by (simp add: move_def b)
  have "fst (move ex_unmarshal (ex_http 500) ''good'') = None \<and>
        snd (snd (move ex_unmarshal (ex_http 500) ''bad'')) = ex_http 500"
    using move_error_iff[of ex_unmarshal "ex_http 500" "''good''"]
      move_error_iff[of ex_unmarshal "ex_http 500" "''bad''"] g b
    by blast
  then show ?thesis using g b s q e by blast
qed

end
